theory Spec2Isabelle
  imports Main "HOL-Library.AList"
begin

section \<open>JavaScript strings\<close>

text \<open>
  Strings are byte strings. \<open>startsWith\<close> and \<open>includes\<close> (here \<open>includes_str\<close>)
  are the methods of \<open>String.prototype\<close> that the workers and the record store call.
\<close>

definition startsWith :: "string \<Rightarrow> string \<Rightarrow> bool" where
  "startsWith s p = (take (length p) s = p)"

fun includes_str :: "string \<Rightarrow> string \<Rightarrow> bool" where
  "includes_str [] sub = (sub = [])"
| "includes_str (c # s) sub = (startsWith (c # s) sub \<or> includes_str s sub)"

section \<open>The platform: responses, the network, the byte-cache\<close>

text \<open>
  The \<open>Date\<close> header of a response as \<open>new Date(response.headers.get('date'))\<close> reads
  it: a missing header gives \<open>new Date(null)\<close>, the epoch; a header that does not parse
  gives an invalid date, whose arithmetic is \<open>NaN\<close>.
\<close>

datatype date_header = NoDate | BadDate | DateMs int

record response =
  status :: nat
  statusText :: string
  body :: string
  date :: date_header

datatype fetch_result = NetFail | NetResp response

record request =
  url :: string
  mode :: string
  accept :: "string option"

datatype js_error =
    NetworkError | TypeError | ConstraintError | DataError | ItemNotFound
  | HttpError nat | ApiError | SyntaxError | SearchOnlyProducts

datatype outcome = Returned response | ReturnedUndefined | Threw js_error

definition ok :: "response \<Rightarrow> bool" where
  "ok r = (200 \<le> status r \<and> status r \<le> 299)"

definition cachedDate :: "response \<Rightarrow> int option" where
  "cachedDate r = (case date r of NoDate \<Rightarrow> Some 0 | BadDate \<Rightarrow> None | DateMs t \<Rightarrow> Some t)"

text \<open>
  A \<open>Cache\<close> is the list of its entries in insertion order, keyed by request URL.
  \<open>put\<close> removes the entry of the same request and appends the new one; \<open>keys()\<close>
  lists the requests in that order. \<open>CacheStorage\<close> is the list of named caches in
  creation order; \<open>caches.open\<close> creates a missing cache, \<open>caches.match\<close> takes the
  first hit over all caches. Writes that the source does not await are applied where
  they are issued.
\<close>

type_synonym cache = "(string \<times> response) list"
type_synonym cache_storage = "(string \<times> cache) list"

definition cache_match :: "cache \<Rightarrow> string \<Rightarrow> response option" where
  "cache_match c u = map_of c u"

definition cache_delete :: "cache \<Rightarrow> string \<Rightarrow> cache" where
  "cache_delete c u = filter (\<lambda>e. fst e \<noteq> u) c"

definition cache_put :: "cache \<Rightarrow> string \<Rightarrow> response \<Rightarrow> cache" where
  "cache_put c u r = cache_delete c u @ [(u, r)]"

definition cache_keys :: "cache \<Rightarrow> string list" where
  "cache_keys c = map fst c"

definition caches_open :: "cache_storage \<Rightarrow> string \<Rightarrow> cache_storage" where
  "caches_open cs n = (if n \<in> fst ` set cs then cs else cs @ [(n, [])])"

definition the_cache :: "cache_storage \<Rightarrow> string \<Rightarrow> cache" where
  "the_cache cs n = (case map_of cs n of None \<Rightarrow> [] | Some c \<Rightarrow> c)"

definition set_cache :: "cache_storage \<Rightarrow> string \<Rightarrow> cache \<Rightarrow> cache_storage" where
  "set_cache cs n c = AList.update n c cs"

definition caches_keys :: "cache_storage \<Rightarrow> string list" where
  "caches_keys cs = map fst cs"

definition caches_delete :: "cache_storage \<Rightarrow> string \<Rightarrow> cache_storage" where
  "caches_delete cs n = filter (\<lambda>e. fst e \<noteq> n) cs"

fun caches_match :: "cache_storage \<Rightarrow> string \<Rightarrow> response option" where
  "caches_match [] u = None"
| "caches_match ((n, c) # cs) u =
     (case cache_match c u of Some r \<Rightarrow> Some r | None \<Rightarrow> caches_match cs u)"

text \<open>\<open>cache.put(request, response)\<close> on the cache opened under a name.\<close>

definition put_in :: "cache_storage \<Rightarrow> string \<Rightarrow> string \<Rightarrow> response \<Rightarrow> cache_storage" where
  "put_in cs n u r = set_cache (caches_open cs n) n (cache_put (the_cache cs n) u r)"

definition response_503 :: response where
  "response_503 =
     \<lparr>status = 503, statusText = ''Service Unavailable'', body = ''Network error'', date = NoDate\<rparr>"

definition response_404 :: response where
  "response_404 = \<lparr>status = 404, statusText = [], body = ''Not found'', date = NoDate\<rparr>"

section \<open>Service worker v2.0 (frontend/service-worker.js)\<close>

definition VERSION :: string where
  "VERSION = ''2.0.0''"

definition CACHE_PREFIX :: string where
  "CACHE_PREFIX = ''lotus-glass-pwa''"

definition CACHES_STATIC :: string where
  "CACHES_STATIC = CACHE_PREFIX @ ''-static-v'' @ VERSION"

definition CACHES_DYNAMIC :: string where
  "CACHES_DYNAMIC = CACHE_PREFIX @ ''-dynamic-v'' @ VERSION"

definition CACHES_IMAGES :: string where
  "CACHES_IMAGES = CACHE_PREFIX @ ''-images-v'' @ VERSION"

definition CACHES_API :: string where
  "CACHES_API = CACHE_PREFIX @ ''-api-v'' @ VERSION"

definition CACHES_FONTS :: string where
  "CACHES_FONTS = CACHE_PREFIX @ ''-fonts-v'' @ VERSION"

text \<open>\<open>Object.values(CACHES)\<close>.\<close>

definition CACHES_values :: "string list" where
  "CACHES_values = [CACHES_STATIC, CACHES_DYNAMIC, CACHES_IMAGES, CACHES_API, CACHES_FONTS]"

definition CACHE_LIMITS_DYNAMIC :: nat where
  "CACHE_LIMITS_DYNAMIC = 50"

definition CACHE_LIMITS_IMAGES :: nat where
  "CACHE_LIMITS_IMAGES = 100"

definition CACHE_LIMITS_API :: nat where
  "CACHE_LIMITS_API = 30"

definition CACHE_DURATIONS_API :: int where
  "CACHE_DURATIONS_API = 5 * 60 * 1000"

definition CACHE_DURATIONS_IMAGES :: int where
  "CACHE_DURATIONS_IMAGES = 7 * 24 * 60 * 60 * 1000"

definition CACHE_DURATIONS_STATIC :: int where
  "CACHE_DURATIONS_STATIC = 30 * 24 * 60 * 60 * 1000"

definition PRECACHE_ASSETS :: "string list" where
  "PRECACHE_ASSETS = [''/'', ''/offline.html'', ''/manifest.json'', ''/p/pwa-main-js.html'']"

text \<open>
  The install handler: \<open>cache.addAll(PRECACHE_ASSETS)\<close> on the static cache. \<open>addAll\<close>
  stores all responses or none: it rejects when a fetch fails or answers outside 2xx,
  and the handler only logs that.
\<close>

definition install :: "(string \<Rightarrow> fetch_result) \<Rightarrow> cache_storage \<Rightarrow> cache_storage" where
  "install net cs =
     (let cs1 = caches_open cs CACHES_STATIC in
      if list_all (\<lambda>u. case net u of NetFail \<Rightarrow> False | NetResp r \<Rightarrow> ok r) PRECACHE_ASSETS
      then foldl (\<lambda>acc u. case net u of NetFail \<Rightarrow> acc | NetResp r \<Rightarrow> put_in acc CACHES_STATIC u r)
             cs1 PRECACHE_ASSETS
      else cs1)"

text \<open>The activate handler: the caches it deletes, and the storage it leaves.\<close>

definition oldCaches :: "cache_storage \<Rightarrow> string list" where
  "oldCaches cs =
     filter (\<lambda>name. startsWith name CACHE_PREFIX \<and> name \<notin> set CACHES_values) (caches_keys cs)"

definition activate :: "cache_storage \<Rightarrow> cache_storage" where
  "activate cs = foldl caches_delete cs (oldCaches cs)"

text \<open>
  The strategies take the outcome of \<open>fetch(request)\<close> and the cache storage, and
  return what the caller receives, the storage afterwards and the number of network
  fetches issued.
\<close>

definition networkFirstStrategy ::
  "request \<Rightarrow> fetch_result \<Rightarrow> cache_storage \<Rightarrow> outcome \<times> cache_storage \<times> nat" where
  "networkFirstStrategy req net cs =
     (let cs1 = caches_open cs CACHES_DYNAMIC; cache = the_cache cs1 CACHES_DYNAMIC in
      case net of
        NetResp networkResponse \<Rightarrow>
          (Returned networkResponse,
           if ok networkResponse then put_in cs1 CACHES_DYNAMIC (url req) networkResponse else cs1,
           1)
      | NetFail \<Rightarrow>
          (case cache_match cache (url req) of
             Some cachedResponse \<Rightarrow> (Returned cachedResponse, cs1, 1)
           | None \<Rightarrow>
               (if mode req = ''navigate''
                then (case cache_match cache ''/offline.html'' of
                        Some offlinePage \<Rightarrow> (Returned offlinePage, cs1, 1)
                      | None \<Rightarrow> (Returned response_503, cs1, 1))
                else (Returned response_503, cs1, 1))))"

definition limitCacheSize :: "string \<Rightarrow> nat \<Rightarrow> cache_storage \<Rightarrow> cache_storage" where
  "limitCacheSize cacheName maxItems cs =
     (let cs1 = caches_open cs cacheName; cache = the_cache cs1 cacheName; keys = cache_keys cache in
      if length keys > maxItems
      then set_cache cs1 cacheName (foldl cache_delete cache (take (length keys - maxItems) keys))
      else cs1)"

text \<open>\<open>age < maxAge\<close>, where \<open>age = now - cachedDate\<close> is \<open>NaN\<close> for an invalid date.\<close>

definition age_below :: "int \<Rightarrow> response \<Rightarrow> int \<Rightarrow> bool" where
  "age_below now cachedResponse maxAge =
     (case cachedDate cachedResponse of None \<Rightarrow> False | Some d \<Rightarrow> now - d < maxAge)"

definition cacheFirstStrategy ::
  "request \<Rightarrow> string \<Rightarrow> int \<Rightarrow> fetch_result \<Rightarrow> cache_storage \<Rightarrow> outcome \<times> cache_storage \<times> nat" where
  "cacheFirstStrategy req cacheName now net cs =
     (let cs1 = caches_open cs cacheName;
          cachedResponse = cache_match (the_cache cs1 cacheName) (url req);
          maxAge = (if cacheName = CACHES_IMAGES then CACHE_DURATIONS_IMAGES else CACHE_DURATIONS_STATIC);
          fromNetwork =
            (case net of
               NetResp networkResponse \<Rightarrow>
                 (Returned networkResponse,
                  if ok networkResponse
                  then limitCacheSize cacheName CACHE_LIMITS_IMAGES
                         (put_in cs1 cacheName (url req) networkResponse)
                  else cs1,
                  1)
             | NetFail \<Rightarrow>
                 (case cachedResponse of
                    Some c \<Rightarrow> (Returned c, cs1, 1)
                  | None \<Rightarrow> (Threw NetworkError, cs1, 1)))
      in
      case cachedResponse of
        Some c \<Rightarrow> if age_below now c maxAge then (Returned c, cs1, 0) else fromNetwork
      | None \<Rightarrow> fromNetwork)"


section \<open>Service worker v2.1 (pwa-main.js)\<close>

definition VERSION_v21 :: string where
  "VERSION_v21 = ''2.1.0''"

definition CACHE_PREFIX_v21 :: string where
  "CACHE_PREFIX_v21 = ''pvt-pwa''"

definition CACHE_NAME :: string where
  "CACHE_NAME = CACHE_PREFIX_v21 @ ''-v'' @ VERSION_v21"

definition OFFLINE_URL :: string where
  "OFFLINE_URL = ''https://ksprovip7777.github.io/pwa-assets/offline.html''"

datatype cache_strategy = NETWORK_FIRST | CACHE_FIRST | STALE_WHILE_REVALIDATE

text \<open>
  The rows of \<open>CACHE_PATTERNS\<close> in their order: the strategy and the cache each URL
  pattern selects (images, scripts and styles, the fonts stylesheet, font files).
\<close>

definition CACHE_PATTERNS :: "(cache_strategy \<times> string) list" where
  "CACHE_PATTERNS =
     [(CACHE_FIRST, CACHE_PREFIX_v21 @ ''-images''),
      (STALE_WHILE_REVALIDATE, CACHE_PREFIX_v21 @ ''-assets''),
      (STALE_WHILE_REVALIDATE, CACHE_PREFIX_v21 @ ''-fonts''),
      (CACHE_FIRST, CACHE_PREFIX_v21 @ ''-font-files'')]"

definition activate_v21 :: "cache_storage \<Rightarrow> cache_storage" where
  "activate_v21 cs =
     foldl (\<lambda>acc cacheName.
              if startsWith cacheName CACHE_PREFIX_v21 \<and> cacheName \<noteq> CACHE_NAME
              then caches_delete acc cacheName else acc)
       cs (caches_keys cs)"

definition networkFirst ::
  "request \<Rightarrow> string \<Rightarrow> fetch_result \<Rightarrow> cache_storage \<Rightarrow> outcome \<times> cache_storage \<times> nat" where
  "networkFirst req cacheName net cs =
     (case net of
        NetResp networkResponse \<Rightarrow>
          (Returned networkResponse,
           if status networkResponse = 200 then put_in cs cacheName (url req) networkResponse else cs,
           1)
      | NetFail \<Rightarrow>
          (case caches_match cs (url req) of
             Some cachedResponse \<Rightarrow> (Returned cachedResponse, cs, 1)
           | None \<Rightarrow>
               (case accept req of
                  None \<Rightarrow> (Threw TypeError, cs, 1)
                | Some a \<Rightarrow>
                    if includes_str a ''text/html''
                    then (case caches_match cs OFFLINE_URL of
                            Some offlineResponse \<Rightarrow> (Returned offlineResponse, cs, 1)
                          | None \<Rightarrow> (Returned response_503, cs, 1))
                    else (Returned response_503, cs, 1))))"

definition cacheFirst ::
  "request \<Rightarrow> string \<Rightarrow> fetch_result \<Rightarrow> cache_storage \<Rightarrow> outcome \<times> cache_storage \<times> nat" where
  "cacheFirst req cacheName net cs =
     (case caches_match cs (url req) of
        Some cachedResponse \<Rightarrow> (Returned cachedResponse, cs, 0)
      | None \<Rightarrow>
          (case net of
             NetResp networkResponse \<Rightarrow>
               (Returned networkResponse,
                if status networkResponse = 200 then put_in cs cacheName (url req) networkResponse
                else cs,
                1)
           | NetFail \<Rightarrow> (Returned response_404, cs, 1)))"


section \<open>Background sync of pending orders (frontend/service-worker.js)\<close>

text \<open>
  The \<open>pending-orders\<close> object store, keyed by \<open>id\<close>, as \<open>getAll()\<close> lists it.
  \<open>deliver\<close> is the outcome of the \<open>POST\<close> of an order. \<open>syncOrders\<close> returns the
  store afterwards and the orders it posted, in the order of posting. Opening the
  database, reading the store and deleting a key are taken to succeed; the message to
  the clients after a removal is left out.
\<close>

record pending_order =
  order_id :: nat
  apiUrl :: string
  order_data :: string

definition removeFromIndexedDB :: "pending_order list \<Rightarrow> nat \<Rightarrow> pending_order list" where
  "removeFromIndexedDB db i = filter (\<lambda>x. order_id x \<noteq> i) db"

fun syncOrders_loop ::
  "(pending_order \<Rightarrow> fetch_result) \<Rightarrow> pending_order list \<Rightarrow> pending_order list
     \<Rightarrow> pending_order list \<times> pending_order list" where
  "syncOrders_loop deliver [] db = (db, [])"
| "syncOrders_loop deliver (order # orders) db =
     (let db1 = (case deliver order of
                   NetResp response \<Rightarrow>
                     if ok response then removeFromIndexedDB db (order_id order) else db
                 | NetFail \<Rightarrow> db);
          (db2, posted) = syncOrders_loop deliver orders db1
      in (db2, order # posted))"

definition syncOrders ::
  "(pending_order \<Rightarrow> fetch_result) \<Rightarrow> pending_order list
     \<Rightarrow> pending_order list \<times> pending_order list" where
  "syncOrders deliver db = syncOrders_loop deliver db db"

section \<open>The record store (pwa-main.js, LotusDB)\<close>

subsection \<open>JavaScript values and objects\<close>

text \<open>
  A stored record is a JavaScript object: a finite map from property names to values.
  Numbers are the integers (timestamps and numeric ids); an array value is an array of
  strings (the search index). A property that is absent reads as \<open>undefined\<close>.
\<close>

datatype jsval = JUndefined | JNull | JBool bool | JNum int | JStr string | JArr "string list"

type_synonym obj = "string \<rightharpoonup> jsval"

definition getProp :: "obj \<Rightarrow> string \<Rightarrow> jsval" where
  "getProp ob f = (case ob f of None \<Rightarrow> JUndefined | Some v \<Rightarrow> v)"

fun truthy :: "jsval \<Rightarrow> bool" where
  "truthy JUndefined = False"
| "truthy JNull = False"
| "truthy (JBool b) = b"
| "truthy (JNum n) = (n \<noteq> 0)"
| "truthy (JStr s) = (s \<noteq> [])"
| "truthy (JArr xs) = True"

text \<open>
  What the store takes from the JavaScript engine and from IndexedDB as given: the string
  methods \<open>toLowerCase\<close> and \<open>trim\<close>, which go by the Unicode character tables, and
  the order in which IndexedDB compares two keys. The methods of the store take them as
  a parameter, and every property below is stated for arbitrary ones.
\<close>

record platform =
  toLowerCase :: "string \<Rightarrow> string"
  trim :: "string \<Rightarrow> string"
  key_le :: "jsval \<Rightarrow> jsval \<Rightarrow> bool"

text \<open>
  For the examples, what they are on ASCII text and on keys that are numbers, ASCII
  strings and arrays of ASCII strings: \<open>toLowerCase\<close> maps the letters \<open>A\<close> to \<open>Z\<close> to
  lower case and keeps every other character; \<open>trim\<close> strips the space, the tab and the
  line ends from both ends; a number is a smaller key than a string and a string a
  smaller key than an array, numbers compare by value, strings by their first
  different character, arrays by their first different element. The examples are made
  of such strings and keys only.
\<close>

definition ascii_lower_char :: "char \<Rightarrow> char" where
  "ascii_lower_char c =
     (case map_of (zip ''ABCDEFGHIJKLMNOPQRSTUVWXYZ'' ''abcdefghijklmnopqrstuvwxyz'') c of
        None \<Rightarrow> c
      | Some l \<Rightarrow> l)"

definition ascii_toLowerCase :: "string \<Rightarrow> string" where
  "ascii_toLowerCase s = map ascii_lower_char s"

definition ascii_space :: "char \<Rightarrow> bool" where
  "ascii_space c = (c \<in> set [CHR '' '', CHR 0x09, CHR 0x0A, CHR 0x0B, CHR 0x0C, CHR 0x0D])"

definition ascii_trim :: "string \<Rightarrow> string" where
  "ascii_trim s = rev (dropWhile ascii_space (rev (dropWhile ascii_space s)))"

fun ascii_str_le :: "string \<Rightarrow> string \<Rightarrow> bool" where
  "ascii_str_le [] t = True"
| "ascii_str_le (c # s) [] = False"
| "ascii_str_le (c # s) (d # t) =
     ((of_char c :: nat) < of_char d \<or> (c = d \<and> ascii_str_le s t))"

fun ascii_arr_le :: "string list \<Rightarrow> string list \<Rightarrow> bool" where
  "ascii_arr_le [] ys = True"
| "ascii_arr_le (x # xs) [] = False"
| "ascii_arr_le (x # xs) (y # ys) =
     ((x \<noteq> y \<and> ascii_str_le x y) \<or> (x = y \<and> ascii_arr_le xs ys))"

fun ascii_key_le :: "jsval \<Rightarrow> jsval \<Rightarrow> bool" where
  "ascii_key_le (JNum a) (JNum b) = (a \<le> b)"
| "ascii_key_le (JNum a) (JStr t) = True"
| "ascii_key_le (JNum a) (JArr ys) = True"
| "ascii_key_le (JStr s) (JStr t) = ascii_str_le s t"
| "ascii_key_le (JStr s) (JArr ys) = True"
| "ascii_key_le (JArr xs) (JArr ys) = ascii_arr_le xs ys"
| "ascii_key_le a b = False"

definition ascii_platform :: platform where
  "ascii_platform =
     \<lparr>toLowerCase = ascii_toLowerCase, trim = ascii_trim, key_le = ascii_key_le\<rparr>"

text \<open>\<open>s.split(' ')\<close>: the pieces between single spaces, empty pieces included.\<close>

fun split_space :: "string \<Rightarrow> string list" where
  "split_space [] = [[]]"
| "split_space (c # s) =
     (if c = CHR '' '' then [] # split_space s
      else (case split_space s of [] \<Rightarrow> [[c]] | t # ts \<Rightarrow> (c # t) # ts))"

text \<open>\<open>[...new Set(terms)]\<close>: the first occurrence of each term, in order.\<close>

definition uniq :: "string list \<Rightarrow> string list" where
  "uniq terms = rev (remdups (rev terms))"

text \<open>
  The decimal text of a number, for the template literal that builds the key of the
  in-memory cache.
\<close>

function nat_str :: "nat \<Rightarrow> string" where
  "nat_str n =
     (if n < 10 then [''0123456789'' ! n] else nat_str (n div 10) @ [''0123456789'' ! (n mod 10)])"
  by pat_completeness auto
termination
  by (relation "measure id") auto

fun join_comma :: "string list \<Rightarrow> string" where
  "join_comma [] = []"
| "join_comma [x] = x"
| "join_comma (x # y # ys) = x @ '','' @ join_comma (y # ys)"

fun js_toString :: "jsval \<Rightarrow> string" where
  "js_toString JUndefined = ''undefined''"
| "js_toString JNull = ''null''"
| "js_toString (JBool b) = (if b then ''true'' else ''false'')"
| "js_toString (JNum n) = (if n < 0 then CHR ''-'' # nat_str (nat (- n)) else nat_str (nat n))"
| "js_toString (JStr s) = s"
| "js_toString (JArr xs) = join_comma xs"

subsection \<open>The database\<close>

datatype store_name = PRODUCTS | CATEGORIES | CART | ORDERS | OFFLINE_ORDERS | SETTINGS

fun STORES :: "store_name \<Rightarrow> string" where
  "STORES PRODUCTS = ''products''"
| "STORES CATEGORIES = ''categories''"
| "STORES CART = ''cart''"
| "STORES ORDERS = ''orders''"
| "STORES OFFLINE_ORDERS = ''offlineOrders''"
| "STORES SETTINGS = ''settings''"

text \<open>The \<open>keyPath\<close> each object store is created with in \<open>_createStores\<close>.\<close>

fun keyPath :: "store_name \<Rightarrow> string" where
  "keyPath PRODUCTS = ''ProductID''"
| "keyPath CATEGORIES = ''CategoryID''"
| "keyPath CART = ''sku''"
| "keyPath ORDERS = ''OrderID''"
| "keyPath OFFLINE_ORDERS = ''id''"
| "keyPath SETTINGS = ''key''"

text \<open>
  The state of a \<open>LotusDB\<close>: each object store as the list of its records with their
  keys, in the order in which the keys entered the store (no method reads this order:
  \<open>getAll\<close> lists a store by its keys), the in-memory cache of \<open>get\<close>, the \<open>syncMeta\<close>
  store as the \<open>lastSync\<close> of each collection, and the key generator of the
  auto-increment store \<open>offlineOrders\<close>.
\<close>

record lotus_db =
  stores :: "store_name \<Rightarrow> (jsval \<times> obj) list"
  memoryCache :: "string \<rightharpoonup> obj"
  syncMeta :: "store_name \<rightharpoonup> int"
  nextId :: int

text \<open>IndexedDB accepts numbers, strings and arrays as keys.\<close>

fun valid_key :: "jsval \<Rightarrow> bool" where
  "valid_key (JNum n) = True"
| "valid_key (JStr s) = True"
| "valid_key (JArr xs) = True"
| "valid_key v = False"

text \<open>
  The key under which \<open>add\<close> and \<open>put\<close> store a value: the property at the store's
  \<open>keyPath\<close>; a value without it is refused, except in the auto-increment store, which
  generates the next number and writes it into the stored value. The result is the key,
  the value as stored and the generator afterwards.
\<close>

definition inline_key :: "store_name \<Rightarrow> lotus_db \<Rightarrow> obj \<Rightarrow> js_error + (jsval \<times> obj \<times> int)" where
  "inline_key sn s item =
     (case getProp item (keyPath sn) of
        JUndefined \<Rightarrow>
          if sn = OFFLINE_ORDERS
          then Inr (JNum (nextId s), item(keyPath sn \<mapsto> JNum (nextId s)), nextId s + 1)
          else Inl DataError
      | JNum n \<Rightarrow>
          Inr (JNum n, item, if sn = OFFLINE_ORDERS \<and> nextId s \<le> n then n + 1 else nextId s)
      | k \<Rightarrow> if valid_key k then Inr (k, item, nextId s) else Inl DataError)"

definition idb_get :: "store_name \<Rightarrow> jsval \<Rightarrow> lotus_db \<Rightarrow> js_error + obj option" where
  "idb_get sn key s = (if valid_key key then Inr (map_of (stores s sn) key) else Inl DataError)"

definition idb_add :: "store_name \<Rightarrow> obj \<Rightarrow> lotus_db \<Rightarrow> js_error + (jsval \<times> lotus_db)" where
  "idb_add sn item s =
     (case inline_key sn s item of
        Inl e \<Rightarrow> Inl e
      | Inr (k, stored, g) \<Rightarrow>
          if map_of (stores s sn) k \<noteq> None then Inl ConstraintError
          else Inr (k, s\<lparr>stores := (stores s)(sn := stores s sn @ [(k, stored)]), nextId := g\<rparr>))"

definition idb_put :: "store_name \<Rightarrow> obj \<Rightarrow> lotus_db \<Rightarrow> js_error + (jsval \<times> lotus_db)" where
  "idb_put sn item s =
     (case inline_key sn s item of
        Inl e \<Rightarrow> Inl e
      | Inr (k, stored, g) \<Rightarrow>
          Inr (k, s\<lparr>stores := (stores s)(sn := AList.update k stored (stores s sn)), nextId := g\<rparr>))"

subsection \<open>Store\<close>

definition field_terms :: "platform \<Rightarrow> obj \<Rightarrow> string \<Rightarrow> bool \<Rightarrow> js_error + string list" where
  "field_terms pf product f splitting =
     (let v = getProp product f in
      if truthy v
      then (case v of
              JStr t \<Rightarrow> Inr (if splitting then split_space (toLowerCase pf t) else [toLowerCase pf t])
            | _ \<Rightarrow> Inl TypeError)
      else Inr [])"

definition buildSearchIndex :: "platform \<Rightarrow> obj \<Rightarrow> js_error + string list" where
  "buildSearchIndex pf product =
     (case field_terms pf product ''TenSanPham'' True of
        Inl e \<Rightarrow> Inl e
      | Inr t1 \<Rightarrow>
     (case field_terms pf product ''MoTa'' True of
        Inl e \<Rightarrow> Inl e
      | Inr t2 \<Rightarrow>
     (case field_terms pf product ''Brand'' False of
        Inl e \<Rightarrow> Inl e
      | Inr t3 \<Rightarrow>
     (case field_terms pf product ''Group'' False of
        Inl e \<Rightarrow> Inl e
      | Inr t4 \<Rightarrow> Inr (uniq (t1 @ t2 @ t3 @ t4))))))"

text \<open>
  The step shared by \<open>add\<close> and \<open>update\<close>: in the products store the search index of
  the item is rebuilt.
\<close>

definition withSearchIndex :: "platform \<Rightarrow> store_name \<Rightarrow> obj \<Rightarrow> js_error + obj" where
  "withSearchIndex pf sn item =
     (if sn = PRODUCTS
      then (case buildSearchIndex pf item of
              Inl e \<Rightarrow> Inl e
            | Inr ts \<Rightarrow> Inr (item(''searchIndex'' \<mapsto> JArr ts)))
      else Inr item)"

definition cacheKey :: "store_name \<Rightarrow> jsval \<Rightarrow> string" where
  "cacheKey sn key = STORES sn @ '':'' @ js_toString key"

text \<open>
  Every method takes the clock reading \<open>now\<close> where it calls \<open>Date.now()\<close>, and returns
  its result or the error it throws, together with the database afterwards.
\<close>

definition Store_add :: "platform \<Rightarrow> store_name \<Rightarrow> int \<Rightarrow> obj \<Rightarrow> lotus_db \<Rightarrow> (js_error + jsval) \<times> lotus_db" where
  "Store_add pf sn now dat s =
     (case withSearchIndex pf sn (dat(''timestamp'' \<mapsto> JNum now)) of
        Inl e \<Rightarrow> (Inl e, s)
      | Inr item \<Rightarrow>
          (case idb_add sn item s of
             Inl e \<Rightarrow> (Inl e, s)
           | Inr (k, s1) \<Rightarrow> (Inr k, s1)))"

definition Store_get :: "store_name \<Rightarrow> jsval \<Rightarrow> lotus_db \<Rightarrow> (js_error + obj option) \<times> lotus_db" where
  "Store_get sn key s =
     (case memoryCache s (cacheKey sn key) of
        Some cached \<Rightarrow> (Inr (Some cached), s)
      | None \<Rightarrow>
          (case idb_get sn key s of
             Inl e \<Rightarrow> (Inl e, s)
           | Inr None \<Rightarrow> (Inr None, s)
           | Inr (Some result) \<Rightarrow>
               (Inr (Some result), s\<lparr>memoryCache := (memoryCache s)(cacheKey sn key \<mapsto> result)\<rparr>)))"

text \<open>
  \<open>getAll()\<close> of an object store gives its records in ascending order of their keys,
  whatever the order in which they were written.
\<close>

fun insert_by_key ::
  "(jsval \<Rightarrow> jsval \<Rightarrow> bool) \<Rightarrow> jsval \<times> obj \<Rightarrow> (jsval \<times> obj) list \<Rightarrow> (jsval \<times> obj) list" where
  "insert_by_key le e [] = [e]"
| "insert_by_key le e (x # xs) =
     (if le (fst e) (fst x) then e # x # xs else x # insert_by_key le e xs)"

definition in_key_order ::
  "(jsval \<Rightarrow> jsval \<Rightarrow> bool) \<Rightarrow> (jsval \<times> obj) list \<Rightarrow> (jsval \<times> obj) list" where
  "in_key_order le rows = foldr (insert_by_key le) rows []"

definition Store_getAll :: "platform \<Rightarrow> store_name \<Rightarrow> lotus_db \<Rightarrow> obj list" where
  "Store_getAll pf sn s = map snd (in_key_order (key_le pf) (stores s sn))"

definition Store_update ::
  "platform \<Rightarrow> store_name \<Rightarrow> int \<Rightarrow> jsval \<Rightarrow> obj \<Rightarrow> lotus_db \<Rightarrow> (js_error + jsval) \<times> lotus_db" where
  "Store_update pf sn now key updates s =
     (case Store_get sn key s of
        (Inl e, s1) \<Rightarrow> (Inl e, s1)
      | (Inr None, s1) \<Rightarrow> (Inl ItemNotFound, s1)
      | (Inr (Some item), s1) \<Rightarrow>
          (case withSearchIndex pf sn ((item ++ updates)(''timestamp'' \<mapsto> JNum now)) of
             Inl e \<Rightarrow> (Inl e, s1)
           | Inr updatedItem \<Rightarrow>
               (case idb_put sn updatedItem s1 of
                  Inl e \<Rightarrow> (Inl e, s1)
                | Inr (k, s2) \<Rightarrow>
                    (Inr k, s2\<lparr>memoryCache := (memoryCache s2)(cacheKey sn key \<mapsto> updatedItem)\<rparr>))))"

definition Store_delete :: "store_name \<Rightarrow> jsval \<Rightarrow> lotus_db \<Rightarrow> (js_error + unit) \<times> lotus_db" where
  "Store_delete sn key s =
     (if valid_key key
      then (Inr (),
            s\<lparr>stores := (stores s)(sn := filter (\<lambda>e. fst e \<noteq> key) (stores s sn)),
              memoryCache := (memoryCache s)(cacheKey sn key := None)\<rparr>)
      else (Inl DataError, s))"

text \<open>\<open>product.searchIndex || this._buildSearchIndex(product)\<close>, as the array \<open>some\<close> runs on.\<close>

definition searchIndexOf :: "platform \<Rightarrow> obj \<Rightarrow> js_error + string list" where
  "searchIndexOf pf product =
     (case getProp product ''searchIndex'' of
        JArr ts \<Rightarrow> Inr ts
      | v \<Rightarrow> if truthy v then Inl TypeError else buildSearchIndex pf product)"

fun search_filter :: "platform \<Rightarrow> string \<Rightarrow> obj list \<Rightarrow> js_error + obj list" where
  "search_filter pf queryLower [] = Inr []"
| "search_filter pf queryLower (product # products) =
     (case searchIndexOf pf product of
        Inl e \<Rightarrow> Inl e
      | Inr searchIndex \<Rightarrow>
          (case search_filter pf queryLower products of
             Inl e \<Rightarrow> Inl e
           | Inr found \<Rightarrow>
               Inr (if list_ex (\<lambda>term. includes_str term queryLower) searchIndex
                    then product # found else found)))"

definition Store_search :: "platform \<Rightarrow> store_name \<Rightarrow> string \<Rightarrow> lotus_db \<Rightarrow> js_error + obj list" where
  "Store_search pf sn query s =
     (if sn \<noteq> PRODUCTS then Inl SearchOnlyProducts
      else search_filter pf (trim pf (toLowerCase pf query)) (Store_getAll pf sn s))"

subsection \<open>SyncEngine\<close>

text \<open>
  What \<open>fetch\<close> of the remote endpoint gives: a rejection, or a response with its
  status and its body as \<open>response.json()\<close> parses it (\<open>None\<close> when it is not JSON).
  The \<open>data\<close> of a result is an array of items or a single object.
\<close>

datatype snapshot = Items "obj list" | Single obj

record api_result =
  success :: bool
  data :: snapshot

datatype api_fetch = FetchRejected | FetchResponse nat "api_result option"

text \<open>\<open>item[keys[storeName]]\<close>: a store without an entry in \<open>keys\<close> reads \<open>item[undefined]\<close>.\<close>

definition getKey :: "store_name \<Rightarrow> obj \<Rightarrow> jsval" where
  "getKey sn item =
     getProp item (case sn of PRODUCTS \<Rightarrow> ''ProductID'' | CATEGORIES \<Rightarrow> ''CategoryID''
                   | ORDERS \<Rightarrow> ''OrderID'' | _ \<Rightarrow> ''undefined'')"

definition updateSyncMeta :: "store_name \<Rightarrow> int \<Rightarrow> lotus_db \<Rightarrow> lotus_db" where
  "updateSyncMeta sn now s = s\<lparr>syncMeta := (syncMeta s)(sn \<mapsto> now)\<rparr>"

text \<open>The body of the loop over an array snapshot: \<open>add\<close>, and \<open>update\<close> on a duplicate key.\<close>

definition pull_item :: "platform \<Rightarrow> store_name \<Rightarrow> int \<Rightarrow> obj \<Rightarrow> lotus_db \<Rightarrow> (js_error + jsval) \<times> lotus_db" where
  "pull_item pf sn now item s =
     (case Store_add pf sn now item s of
        (Inr k, s1) \<Rightarrow> (Inr k, s1)
      | (Inl ConstraintError, s1) \<Rightarrow> Store_update pf sn now (getKey sn item) item s1
      | (Inl e, s1) \<Rightarrow> (Inl e, s1))"

fun pull_items :: "platform \<Rightarrow> store_name \<Rightarrow> int \<Rightarrow> obj list \<Rightarrow> lotus_db \<Rightarrow> (js_error + unit) \<times> lotus_db" where
  "pull_items pf sn now [] s = (Inr (), s)"
| "pull_items pf sn now (item # items) s =
     (case pull_item pf sn now item s of
        (Inr k, s1) \<Rightarrow> pull_items pf sn now items s1
      | (Inl e, s1) \<Rightarrow> (Inl e, s1))"

definition pull ::
  "platform \<Rightarrow> store_name \<Rightarrow> int \<Rightarrow> api_fetch \<Rightarrow> lotus_db \<Rightarrow> (js_error + snapshot) \<times> lotus_db" where
  "pull pf sn now fetched s =
     (case fetched of
        FetchRejected \<Rightarrow> (Inl NetworkError, s)
      | FetchResponse st parsed \<Rightarrow>
          if \<not> (200 \<le> st \<and> st \<le> 299) then (Inl (HttpError st), s)
          else (case parsed of
                  None \<Rightarrow> (Inl SyntaxError, s)
                | Some result \<Rightarrow>
                    if \<not> success result then (Inl ApiError, s)
                    else (case data result of
                            Items items \<Rightarrow>
                              (case pull_items pf sn now items s of
                                 (Inl e, s1) \<Rightarrow> (Inl e, s1)
                               | (Inr u, s1) \<Rightarrow> (Inr (data result), updateSyncMeta sn now s1))
                          | Single d \<Rightarrow>
                              (case Store_add pf sn now d s of
                                 (Inl e, s1) \<Rightarrow> (Inl e, s1)
                               | (Inr k, s1) \<Rightarrow> (Inr (data result), updateSyncMeta sn now s1)))))"

text \<open>
  \<open>push\<close> posts the rows of a store one at a time; it returns its result and the rows
  it posted. It writes nothing to the database.
\<close>

definition accepted :: "api_fetch \<Rightarrow> bool" where
  "accepted f =
     (case f of
        FetchRejected \<Rightarrow> False
      | FetchResponse st parsed \<Rightarrow>
          200 \<le> st \<and> st \<le> 299 \<and> (case parsed of None \<Rightarrow> False | Some result \<Rightarrow> success result))"

fun push_loop :: "(obj \<Rightarrow> api_fetch) \<Rightarrow> obj list \<Rightarrow> (js_error + unit) \<times> obj list" where
  "push_loop deliver [] = (Inr (), [])"
| "push_loop deliver (item # items) =
     (case deliver item of
        FetchRejected \<Rightarrow> (Inl NetworkError, [item])
      | FetchResponse st parsed \<Rightarrow>
          if \<not> (200 \<le> st \<and> st \<le> 299) then (Inl (HttpError st), [item])
          else (case parsed of
                  None \<Rightarrow> (Inl SyntaxError, [item])
                | Some result \<Rightarrow>
                    if \<not> success result then (Inl ApiError, [item])
                    else (case push_loop deliver items of (r, posted) \<Rightarrow> (r, item # posted))))"

definition push :: "platform \<Rightarrow> store_name \<Rightarrow> (obj \<Rightarrow> api_fetch) \<Rightarrow> lotus_db \<Rightarrow> (js_error + unit) \<times> obj list" where
  "push pf sn deliver s = push_loop deliver (Store_getAll pf sn s)"

text \<open>The database as \<open>_createStores\<close> leaves it on first opening: every store empty.\<close>

definition empty_db :: lotus_db where
  "empty_db = \<lparr>stores = (\<lambda>sn. []), memoryCache = Map.empty, syncMeta = Map.empty, nextId = 1\<rparr>"

subsection \<open>Notions used to state the properties of pull\<close>

text \<open>
  The collections whose key \<open>_getKey\<close> knows; a record without the properties that
  every write sets anew (the timestamp and, in the products store, the search index);
  a record as a write at a given clock reading stores it from given other properties;
  an in-memory cache that holds, for the keys of a set, no record that differs from the
  stored one; and what the items of a snapshot that carry a given key write over one
  another.
\<close>

definition erase_derived :: "store_name \<Rightarrow> obj \<Rightarrow> obj" where
  "erase_derived sn r =
     (\<lambda>f. if f = ''timestamp'' \<or> (sn = PRODUCTS \<and> f = ''searchIndex'') then None else r f)"

definition stored_as :: "platform \<Rightarrow> store_name \<Rightarrow> int \<Rightarrow> obj \<Rightarrow> obj \<Rightarrow> bool" where
  "stored_as pf sn now c r =
     (erase_derived sn r = c \<and> r ''timestamp'' = Some (JNum now)
      \<and> (sn = PRODUCTS \<longrightarrow> (\<exists>ts. buildSearchIndex pf r = Inr ts \<and> r ''searchIndex'' = Some (JArr ts))))"

definition pull_keyed :: "store_name \<Rightarrow> bool" where
  "pull_keyed sn = (sn = PRODUCTS \<or> sn = CATEGORIES \<or> sn = ORDERS)"

definition cache_coherent :: "store_name \<Rightarrow> jsval set \<Rightarrow> lotus_db \<Rightarrow> bool" where
  "cache_coherent sn K s =
     (\<forall>k \<in> K. \<forall>v. memoryCache s (cacheKey sn k) = Some v \<longrightarrow> map_of (stores s sn) k = Some v)"

definition eraseo :: "store_name \<Rightarrow> obj option \<Rightarrow> obj" where
  "eraseo sn x = (case x of None \<Rightarrow> Map.empty | Some r \<Rightarrow> erase_derived sn r)"

fun merged :: "store_name \<Rightarrow> obj list \<Rightarrow> jsval \<Rightarrow> obj" where
  "merged sn [] k = Map.empty"
| "merged sn (item # items) k =
     (if getKey sn item = k then erase_derived sn item else Map.empty) ++ merged sn items k"

section \<open>Properties of the byte-cache and of the workers\<close>

subsection \<open>Cache storage\<close>

lemma the_cache_open [simp]: "the_cache (caches_open cs n) n = the_cache cs n"
  by (force simp: the_cache_def caches_open_def split: option.splits dest!: map_of_SomeD)

lemma map_of_caches_open: "map_of (caches_open cs n) m = (if m = n \<and> map_of cs n = None then Some [] else map_of cs m)"
proof (cases "n \<in> fst ` set cs")
  case True
  then have "map_of cs n \<noteq> None" by (simp add: map_of_eq_None_iff)
  with True show ?thesis by (simp add: caches_open_def)
next
  case False
  then have "map_of cs n = None" by (simp add: map_of_eq_None_iff)
  with False show ?thesis by (simp add: caches_open_def map_add_def split: option.splits)
qed

lemma the_cache_open_other [simp]: "the_cache (caches_open cs n) m = the_cache cs m"
  by (auto simp: the_cache_def map_of_caches_open split: option.splits)

lemma the_cache_set_cache [simp]: "the_cache (set_cache cs n c) m = (if m = n then c else the_cache cs m)"
  by (simp add: the_cache_def set_cache_def update_conv')

lemma the_cache_put_in:
  "the_cache (put_in cs n u r) m = (if m = n then cache_put (the_cache cs n) u r else the_cache cs m)"
  by (simp add: put_in_def)

lemma cache_match_put [simp]: "cache_match (cache_put c u r) u = Some r"
proof -
  have "map_of (filter (\<lambda>e. fst e \<noteq> u) c) u = None"
    by (auto simp: map_of_eq_None_iff)
  then show ?thesis
    by (simp add: cache_match_def cache_put_def cache_delete_def map_add_def)
qed

lemma foldl_cache_delete:
  "foldl cache_delete c us = filter (\<lambda>e. fst e \<notin> set us) c"
  unfolding cache_delete_def
  by (induction us arbitrary: c) (simp_all add: conj_commute)

lemma limitCacheSize_keeps_newest:
  assumes "distinct (cache_keys (the_cache cs n))"
  shows "the_cache (limitCacheSize n maxItems cs) n
           = drop (length (the_cache cs n) - maxItems) (the_cache cs n)"
proof -
  let ?c = "the_cache cs n"
  let ?k = "length ?c - maxItems"
  have d: "distinct (map fst ?c)" using assms by (simp add: cache_keys_def)
  have "filter (\<lambda>e. fst e \<notin> set (take ?k (map fst ?c))) ?c = drop ?k ?c"
  proof -
    have "?c = take ?k ?c @ drop ?k ?c" by simp
    moreover have "filter (\<lambda>e. fst e \<notin> set (take ?k (map fst ?c))) (take ?k ?c) = []"
      by (auto simp: filter_empty_conv take_map)
    moreover have "filter (\<lambda>e. fst e \<notin> set (take ?k (map fst ?c))) (drop ?k ?c) = drop ?k ?c"
    proof (rule filter_True, rule ballI)
      fix e assume e: "e \<in> set (drop ?k ?c)"
      have "distinct (map fst (take ?k ?c) @ map fst (drop ?k ?c))"
        using d by (metis append_take_drop_id map_append)
      then have "set (map fst (take ?k ?c)) \<inter> set (map fst (drop ?k ?c)) = {}"
        by simp
      with e show "fst e \<notin> set (take ?k (map fst ?c))"
        by (auto simp: take_map)
    qed
    ultimately show ?thesis by (metis filter_append append_Nil)
  qed
  then show ?thesis
    by (simp add: limitCacheSize_def Let_def cache_keys_def foldl_cache_delete)
qed

subsection \<open>Activation\<close>

lemma foldl_caches_delete:
  "foldl caches_delete cs ns = filter (\<lambda>e. fst e \<notin> set ns) cs"
  unfolding caches_delete_def
  by (induction ns arbitrary: cs) (simp_all add: conj_commute)

lemma activate_keys:
  "caches_keys (activate cs) =
     filter (\<lambda>n. \<not> (startsWith n CACHE_PREFIX \<and> n \<notin> set CACHES_values)) (caches_keys cs)"
proof -
  have "filter (\<lambda>e. fst e \<notin> set (oldCaches cs)) cs =
        filter (\<lambda>e. \<not> (startsWith (fst e) CACHE_PREFIX \<and> fst e \<notin> set CACHES_values)) cs"
    by (rule filter_cong) (auto simp: oldCaches_def caches_keys_def)
  then show ?thesis
    by (simp add: activate_def foldl_caches_delete caches_keys_def filter_map o_def)
qed

lemma activate_keeps_current:
  "n \<in> set CACHES_values \<Longrightarrow> n \<in> set (caches_keys cs) \<Longrightarrow> n \<in> set (caches_keys (activate cs))"
  by (simp add: activate_keys)

text \<open>
  Claim C2. Activation deletes the caches that carry the worker's prefix and are not
  caches of the running version, and no cache the running version uses. The v2.0 worker
  does so (\<open>activate_keys\<close>, \<open>activate_keeps_current\<close>). The v2.1 worker spares
  only \<open>CACHE_NAME\<close>: here it deletes \<open>pvt-pwa-images\<close>, the cache that the
  cache-first row of its own \<open>CACHE_PATTERNS\<close> writes to.
\<close>

theorem activate_v21_deletes_strategy_cache:
  "caches_keys (activate_v21
      [(''pvt-pwa-v2.1.0'', []),
       (''pvt-pwa-images'', [(''https://example.org/a.png'', \<lparr>status = 200, statusText = ''OK'', body = ''png'', date = DateMs 0\<rparr>)]),
       (''pvt-pwa-v2.0.0'', [])])
     = [''pvt-pwa-v2.1.0'']
   \<and> (CACHE_FIRST, ''pvt-pwa-images'') \<in> set CACHE_PATTERNS"
  by (simp add: activate_v21_def caches_keys_def caches_delete_def startsWith_def
      CACHE_PREFIX_v21_def CACHE_NAME_def VERSION_v21_def CACHE_PATTERNS_def)

subsection \<open>Cache-first\<close>

text \<open>
  Claim C4, as the code has it. In the v2.0 worker a cached entry whose age is below
  the maximum age of its cache (seven days for the images cache, thirty days for any
  other) is returned and nothing is fetched; an older entry, or one whose date cannot be
  read, leads to a fetch, and when that fails the entry is returned all the same; with
  no entry a failed fetch is thrown to the caller. In the v2.1 worker there is no
  expiry: an entry found in any cache is returned and nothing is fetched, and a failed
  fetch is answered with a 404 response.
\<close>

theorem cacheFirst_expiry:
  "(cache_match (the_cache cs cn) (url req) = Some c \<and>
      (\<exists>d. cachedDate c = Some d \<and>
           now - d < (if cn = CACHES_IMAGES then CACHE_DURATIONS_IMAGES else CACHE_DURATIONS_STATIC))
      \<longrightarrow> cacheFirstStrategy req cn now net cs = (Returned c, caches_open cs cn, 0))
   \<and> (cache_match (the_cache cs cn) (url req) = Some c \<and>
      \<not> (\<exists>d. cachedDate c = Some d \<and>
           now - d < (if cn = CACHES_IMAGES then CACHE_DURATIONS_IMAGES else CACHE_DURATIONS_STATIC))
      \<longrightarrow> snd (snd (cacheFirstStrategy req cn now net cs)) = 1 \<and>
          fst (cacheFirstStrategy req cn now net cs)
            = (case net of NetFail \<Rightarrow> Returned c | NetResp r \<Rightarrow> Returned r))
   \<and> (cache_match (the_cache cs cn) (url req) = None
      \<longrightarrow> snd (snd (cacheFirstStrategy req cn now net cs)) = 1 \<and>
          fst (cacheFirstStrategy req cn now net cs)
            = (case net of NetFail \<Rightarrow> Threw NetworkError | NetResp r \<Rightarrow> Returned r))
   \<and> (caches_match cs (url req) = Some c
      \<longrightarrow> cacheFirst req cn net cs = (Returned c, cs, 0))
   \<and> (caches_match cs (url req) = None
      \<longrightarrow> snd (snd (cacheFirst req cn net cs)) = 1 \<and>
          fst (cacheFirst req cn net cs)
            = (case net of NetFail \<Rightarrow> Returned response_404 | NetResp r \<Rightarrow> Returned r))"
  by (auto simp: cacheFirstStrategy_def cacheFirst_def age_below_def Let_def
      split: option.splits fetch_result.splits)

text \<open>
  The theorem of claim C4 at concrete requests: a fresh entry, an expired entry and no
  entry, for each worker.
\<close>

theorem cacheFirst_expiry_witness:
  "cacheFirstStrategy \<lparr>url = ''/a.png'', mode = ''no-cors'', accept = None\<rparr> CACHES_IMAGES 2000 NetFail
      [(CACHES_IMAGES, [(''/a.png'', \<lparr>status = 200, statusText = ''OK'', body = ''png'', date = DateMs 1000\<rparr>)])]
     = (Returned \<lparr>status = 200, statusText = ''OK'', body = ''png'', date = DateMs 1000\<rparr>,
        [(CACHES_IMAGES, [(''/a.png'', \<lparr>status = 200, statusText = ''OK'', body = ''png'', date = DateMs 1000\<rparr>)])],
        0)
   \<and> fst (cacheFirstStrategy \<lparr>url = ''/a.png'', mode = ''no-cors'', accept = None\<rparr> CACHES_IMAGES 604801000 NetFail
      [(CACHES_IMAGES, [(''/a.png'', \<lparr>status = 200, statusText = ''OK'', body = ''png'', date = DateMs 1000\<rparr>)])])
     = Returned \<lparr>status = 200, statusText = ''OK'', body = ''png'', date = DateMs 1000\<rparr>
   \<and> snd (snd (cacheFirstStrategy \<lparr>url = ''/a.png'', mode = ''no-cors'', accept = None\<rparr> CACHES_IMAGES 604801000 NetFail
      [(CACHES_IMAGES, [(''/a.png'', \<lparr>status = 200, statusText = ''OK'', body = ''png'', date = DateMs 1000\<rparr>)])]))
     = 1
   \<and> fst (cacheFirstStrategy \<lparr>url = ''/a.png'', mode = ''no-cors'', accept = None\<rparr> CACHES_IMAGES 2000 NetFail [])
     = Threw NetworkError
   \<and> cacheFirst \<lparr>url = ''/a.png'', mode = ''no-cors'', accept = None\<rparr> ''pvt-pwa-images'' NetFail
      [(''pvt-pwa-images'', [(''/a.png'', \<lparr>status = 200, statusText = ''OK'', body = ''png'', date = DateMs 1000\<rparr>)])]
     = (Returned \<lparr>status = 200, statusText = ''OK'', body = ''png'', date = DateMs 1000\<rparr>,
        [(''pvt-pwa-images'', [(''/a.png'', \<lparr>status = 200, statusText = ''OK'', body = ''png'', date = DateMs 1000\<rparr>)])],
        0)
   \<and> fst (cacheFirst \<lparr>url = ''/a.png'', mode = ''no-cors'', accept = None\<rparr> ''pvt-pwa-images'' NetFail [])
     = Returned response_404"
  using
    cacheFirst_expiry [where cs = "[(CACHES_IMAGES, [(''/a.png'', \<lparr>status = 200, statusText = ''OK'', body = ''png'', date = DateMs 1000\<rparr>)])]"
      and cn = CACHES_IMAGES and req = "\<lparr>url = ''/a.png'', mode = ''no-cors'', accept = None\<rparr>"
      and c = "\<lparr>status = 200, statusText = ''OK'', body = ''png'', date = DateMs 1000\<rparr>"
      and now = 2000 and net = NetFail]
    cacheFirst_expiry [where cs = "[(CACHES_IMAGES, [(''/a.png'', \<lparr>status = 200, statusText = ''OK'', body = ''png'', date = DateMs 1000\<rparr>)])]"
      and cn = CACHES_IMAGES and req = "\<lparr>url = ''/a.png'', mode = ''no-cors'', accept = None\<rparr>"
      and c = "\<lparr>status = 200, statusText = ''OK'', body = ''png'', date = DateMs 1000\<rparr>"
      and now = 604801000 and net = NetFail]
    cacheFirst_expiry [where cs = "[]"
      and cn = CACHES_IMAGES and req = "\<lparr>url = ''/a.png'', mode = ''no-cors'', accept = None\<rparr>"
      and c = "\<lparr>status = 200, statusText = ''OK'', body = ''png'', date = DateMs 1000\<rparr>"
      and now = 2000 and net = NetFail]
    cacheFirst_expiry [where cs = "[(''pvt-pwa-images'', [(''/a.png'', \<lparr>status = 200, statusText = ''OK'', body = ''png'', date = DateMs 1000\<rparr>)])]"
      and cn = "''pvt-pwa-images''" and req = "\<lparr>url = ''/a.png'', mode = ''no-cors'', accept = None\<rparr>"
      and c = "\<lparr>status = 200, statusText = ''OK'', body = ''png'', date = DateMs 1000\<rparr>"
      and now = 2000 and net = NetFail]
    cacheFirst_expiry [where cs = "[]"
      and cn = "''pvt-pwa-images''" and req = "\<lparr>url = ''/a.png'', mode = ''no-cors'', accept = None\<rparr>"
      and c = "\<lparr>status = 200, statusText = ''OK'', body = ''png'', date = DateMs 1000\<rparr>"
      and now = 2000 and net = NetFail]
  by (simp add: cache_match_def the_cache_def caches_open_def cachedDate_def
      CACHE_DURATIONS_IMAGES_def)

text \<open>
  Claim C4 as stated fails in the v2.1 worker: an entry dated at the epoch is returned
  with no fetch, and a failed fetch with nothing cached gives a 404 response instead of
  the failure.
\<close>

theorem cacheFirst_v21_ignores_age:
  "cacheFirst \<lparr>url = ''/a.png'', mode = ''no-cors'', accept = None\<rparr> ''pvt-pwa-images'' NetFail
      [(''pvt-pwa-images'', [(''/a.png'', \<lparr>status = 200, statusText = ''OK'', body = ''png'', date = DateMs 0\<rparr>)])]
     = (Returned \<lparr>status = 200, statusText = ''OK'', body = ''png'', date = DateMs 0\<rparr>,
        [(''pvt-pwa-images'', [(''/a.png'', \<lparr>status = 200, statusText = ''OK'', body = ''png'', date = DateMs 0\<rparr>)])],
        0)
   \<and> cacheFirst \<lparr>url = ''/a.png'', mode = ''no-cors'', accept = None\<rparr> ''pvt-pwa-images'' NetFail []
     = (Returned response_404, [], 1)"
  by (simp add: cacheFirst_def cache_match_def)

subsection \<open>Stale-while-revalidate\<close>




subsection \<open>Network-first\<close>

text \<open>
  Claim C7. When the fetch fails and the request is not cached, a navigation is to
  receive the offline document. The install handler of the v2.0 worker stores
  \<open>/offline.html\<close> in the static cache, and \<open>networkFirstStrategy\<close> looks for it in
  the dynamic cache: after an install, a navigation that fails receives the 503 response.
\<close>

theorem networkFirstStrategy_misses_offline_page:
  "cache_match
      (the_cache (install (\<lambda>u. NetResp \<lparr>status = 200, statusText = ''OK'', body = u, date = DateMs 0\<rparr>) [])
         CACHES_STATIC) ''/offline.html''
     = Some \<lparr>status = 200, statusText = ''OK'', body = ''/offline.html'', date = DateMs 0\<rparr>
   \<and> fst (networkFirstStrategy \<lparr>url = ''/products'', mode = ''navigate'', accept = Some ''text/html''\<rparr> NetFail
          (install (\<lambda>u. NetResp \<lparr>status = 200, statusText = ''OK'', body = u, date = DateMs 0\<rparr>) []))
     = Returned response_503"
  by code_simp

subsection \<open>Eviction\<close>

text \<open>
  Claim C5. \<open>limitCacheSize\<close> keeps the newest \<open>maxItems\<close> entries
  (\<open>limitCacheSize_keeps_newest\<close>), but it is called by \<open>cacheFirstStrategy\<close> alone,
  and there with the limit of the images cache. The dynamic cache has the limit 50 and
  is written by \<open>networkFirstStrategy\<close>, which never evicts: an insert into a dynamic
  cache of 50 entries leaves 51.
\<close>

theorem networkFirstStrategy_exceeds_dynamic_limit:
  "length (cache_keys (the_cache
      (fst (snd (networkFirstStrategy \<lparr>url = ''/new'', mode = ''navigate'', accept = Some ''text/html''\<rparr>
         (NetResp \<lparr>status = 200, statusText = ''OK'', body = ''page'', date = DateMs 0\<rparr>)
         [(CACHES_DYNAMIC,
           map (\<lambda>i. (replicate i CHR ''a'', \<lparr>status = 200, statusText = ''OK'', body = ''page'', date = DateMs 0\<rparr>))
             [1..<51])])))
      CACHES_DYNAMIC)) = 51
   \<and> CACHE_LIMITS_DYNAMIC = 50"
proof -
  let ?r = "\<lparr>status = 200, statusText = ''OK'', body = ''page'', date = DateMs 0\<rparr>"
  let ?c = "map (\<lambda>i. (replicate i CHR ''a'', ?r)) [1..<51]"
  have "filter (\<lambda>e. fst e \<noteq> ''/new'') ?c = ?c"
  proof (rule filter_True, rule ballI)
    fix e assume "e \<in> set ?c"
    then obtain i where "1 \<le> i" and "fst e = replicate i CHR ''a''" by auto
    then show "fst e \<noteq> ''/new''" by (cases i) auto
  qed
  then have "length (cache_put ?c ''/new'' ?r) = 51"
    by (simp add: cache_put_def cache_delete_def)
  moreover have "the_cache [(CACHES_DYNAMIC, ?c)] CACHES_DYNAMIC = ?c"
    by (simp add: the_cache_def)
  ultimately show ?thesis
    by (simp add: networkFirstStrategy_def Let_def ok_def the_cache_put_in cache_keys_def
        CACHE_LIMITS_DYNAMIC_def)
qed

section \<open>Properties of the delivery of queued writes\<close>

lemma syncOrders_loop_eq:
  "syncOrders_loop deliver os db =
     (filter (\<lambda>x. \<not> (\<exists>y \<in> set os. order_id y = order_id x \<and> (\<exists>r. deliver y = NetResp r \<and> ok r))) db, os)"
proof (induction os arbitrary: db)
  case Nil
  then show ?case by simp
next
  case (Cons a os)
  show ?case
  proof (cases "deliver a")
    case NetFail
    then show ?thesis by (simp add: Cons.IH)
  next
    case (NetResp r)
    then show ?thesis
      by (auto simp add: Cons.IH removeFromIndexedDB_def intro!: filter_cong)
  qed
qed

theorem syncOrders_skips_failures:
  "distinct (map order_id db) \<Longrightarrow>
     syncOrders deliver db = (filter (\<lambda>x. \<not> (\<exists>r. deliver x = NetResp r \<and> ok r)) db, db)"
proof -
  assume d: "distinct (map order_id db)"
  have "filter (\<lambda>x. \<not> (\<exists>y \<in> set db. order_id y = order_id x \<and> (\<exists>r. deliver y = NetResp r \<and> ok r))) db
        = filter (\<lambda>x. \<not> (\<exists>r. deliver x = NetResp r \<and> ok r)) db"
  proof (rule filter_cong[OF refl])
    fix x assume x: "x \<in> set db"
    have "\<And>y. y \<in> set db \<Longrightarrow> order_id y = order_id x \<Longrightarrow> y = x"
      using d x by (meson distinct_map inj_onD)
    then show "(\<not> (\<exists>y \<in> set db. order_id y = order_id x \<and> (\<exists>r. deliver y = NetResp r \<and> ok r)))
               = (\<not> (\<exists>r. deliver x = NetResp r \<and> ok r))"
      using x by blast
  qed
  then show ?thesis by (simp add: syncOrders_def syncOrders_loop_eq)
qed

lemma push_loop_Cons_accepted:
  "accepted (post item) \<Longrightarrow>
     push_loop post (item # items) = (fst (push_loop post items), item # snd (push_loop post items))"
  by (auto simp: accepted_def split: api_fetch.splits option.splits prod.splits)

lemma push_loop_Cons_rejected:
  "\<not> accepted (post item) \<Longrightarrow>
     snd (push_loop post (item # items)) = [item] \<and> isl (fst (push_loop post (item # items)))"
  by (auto simp: accepted_def split: api_fetch.splits option.splits prod.splits)

lemma push_loop_posted:
  "snd (push_loop post items)
     = takeWhile (\<lambda>x. accepted (post x)) items @ take 1 (dropWhile (\<lambda>x. accepted (post x)) items)"
proof (induction items)
  case Nil
  then show ?case by simp
next
  case (Cons a items)
  show ?case
  proof (cases "accepted (post a)")
    case True
    then show ?thesis using Cons.IH by (simp add: push_loop_Cons_accepted del: push_loop.simps)
  next
    case False
    then show ?thesis using push_loop_Cons_rejected [of post a items] by (simp del: push_loop.simps)
  qed
qed

lemma push_loop_result:
  "isl (fst (push_loop post items)) = (\<not> list_all (\<lambda>x. accepted (post x)) items)"
proof (induction items)
  case Nil
  then show ?case by simp
next
  case (Cons a items)
  show ?case
  proof (cases "accepted (post a)")
    case True
    then show ?thesis using Cons.IH by (simp add: push_loop_Cons_accepted del: push_loop.simps)
  next
    case False
    then show ?thesis using push_loop_Cons_rejected [of post a items] by (simp del: push_loop.simps)
  qed
qed

text \<open>
  Claim C1, as the code has it. \<open>syncOrders\<close> posts every pending order, in the order
  in which the store lists them, whatever happened to the orders before it, and
  afterwards the store holds exactly the orders whose post was not answered with a 2xx
  status. \<open>SyncEngine.push\<close> posts the rows in the order in which \<open>getAll()\<close> lists
  them, which is the ascending order of their keys, up to and including the first one
  that is not accepted, fails exactly when there is such a row, and removes nothing.
\<close>

theorem drain_continues_after_failure:
  "(distinct (map order_id db) \<longrightarrow>
      syncOrders deliver db = (filter (\<lambda>x. \<not> (\<exists>r. deliver x = NetResp r \<and> ok r)) db, db))
   \<and> snd (push pf sn post s)
       = takeWhile (\<lambda>x. accepted (post x)) (Store_getAll pf sn s)
         @ take 1 (dropWhile (\<lambda>x. accepted (post x)) (Store_getAll pf sn s))
   \<and> isl (fst (push pf sn post s)) = (\<not> list_all (\<lambda>x. accepted (post x)) (Store_getAll pf sn s))"
  using syncOrders_skips_failures [of db deliver]
  by (simp add: push_def push_loop_posted push_loop_result)

text \<open>
  The theorem of claim C1 at a queue of two orders of which the first fails, and at a
  push of three rows, written to the store with the keys 2, 1 and 3 in this order, of
  which the row of key 2 is rejected: the rows of the keys 1 and 2 are posted.
\<close>

theorem drain_continues_after_failure_witness:
  "distinct (map order_id
      [\<lparr>order_id = 1, apiUrl = ''/api/orders'', order_data = ''A''\<rparr>,
       \<lparr>order_id = 2, apiUrl = ''/api/orders'', order_data = ''B''\<rparr>])
   \<and> syncOrders
      (\<lambda>x. if order_id x = 1 then NetFail
            else NetResp \<lparr>status = 201, statusText = ''Created'', body = ''{}'', date = NoDate\<rparr>)
      [\<lparr>order_id = 1, apiUrl = ''/api/orders'', order_data = ''A''\<rparr>,
       \<lparr>order_id = 2, apiUrl = ''/api/orders'', order_data = ''B''\<rparr>]
     = ([\<lparr>order_id = 1, apiUrl = ''/api/orders'', order_data = ''A''\<rparr>],
        [\<lparr>order_id = 1, apiUrl = ''/api/orders'', order_data = ''A''\<rparr>,
         \<lparr>order_id = 2, apiUrl = ''/api/orders'', order_data = ''B''\<rparr>])
   \<and> push ascii_platform OFFLINE_ORDERS
        (\<lambda>x. if getProp x ''id'' = JNum 2 then FetchRejected
              else FetchResponse 200 (Some \<lparr>success = True, data = Items []\<rparr>))
        (empty_db\<lparr>stores := (stores empty_db)(OFFLINE_ORDERS :=
           [(JNum 2, [''id'' \<mapsto> JNum 2]), (JNum 1, [''id'' \<mapsto> JNum 1]), (JNum 3, [''id'' \<mapsto> JNum 3])])\<rparr>)
     = (Inl NetworkError, [[''id'' \<mapsto> JNum 1], [''id'' \<mapsto> JNum 2]])"
  using drain_continues_after_failure
    [where db = "[\<lparr>order_id = 1, apiUrl = ''/api/orders'', order_data = ''A''\<rparr>,
                  \<lparr>order_id = 2, apiUrl = ''/api/orders'', order_data = ''B''\<rparr>]"
       and deliver = "\<lambda>x. if order_id x = 1 then NetFail
            else NetResp \<lparr>status = 201, statusText = ''Created'', body = ''{}'', date = NoDate\<rparr>"
       and pf = ascii_platform and sn = OFFLINE_ORDERS
       and post = "\<lambda>x. if getProp x ''id'' = JNum 2 then FetchRejected
              else FetchResponse 200 (Some \<lparr>success = True, data = Items []\<rparr>)"
       and s = "empty_db\<lparr>stores := (stores empty_db)(OFFLINE_ORDERS :=
           [(JNum 2, [''id'' \<mapsto> JNum 2]), (JNum 1, [''id'' \<mapsto> JNum 1]), (JNum 3, [''id'' \<mapsto> JNum 3])])\<rparr>"]
  by (simp add: ok_def push_def Store_getAll_def in_key_order_def ascii_platform_def
        getProp_def accepted_def)

text \<open>
  Claim C1 as stated fails: with orders A, B and C queued and the delivery of B failing,
  \<open>syncOrders\<close> goes on to post C and removes it, so that B alone stays queued.
\<close>

theorem syncOrders_delivers_after_failure:
  "syncOrders
      (\<lambda>x. if order_id x = 2 then NetFail
            else NetResp \<lparr>status = 200, statusText = ''OK'', body = ''{}'', date = NoDate\<rparr>)
      [\<lparr>order_id = 1, apiUrl = ''/api/orders'', order_data = ''A''\<rparr>,
       \<lparr>order_id = 2, apiUrl = ''/api/orders'', order_data = ''B''\<rparr>,
       \<lparr>order_id = 3, apiUrl = ''/api/orders'', order_data = ''C''\<rparr>]
     = ([\<lparr>order_id = 2, apiUrl = ''/api/orders'', order_data = ''B''\<rparr>],
        [\<lparr>order_id = 1, apiUrl = ''/api/orders'', order_data = ''A''\<rparr>,
         \<lparr>order_id = 2, apiUrl = ''/api/orders'', order_data = ''B''\<rparr>,
         \<lparr>order_id = 3, apiUrl = ''/api/orders'', order_data = ''C''\<rparr>])"
  by (simp add: syncOrders_def removeFromIndexedDB_def ok_def)

section \<open>Properties of the record store\<close>

text \<open>
  \<open>getAll\<close> lists every record of the store once, and in ascending order of the keys
  whenever the order of the keys is total and transitive.
\<close>

lemma set_insert_by_key: "set (insert_by_key le e xs) = insert e (set xs)"
  by (induction xs) auto

lemma set_in_key_order: "set (in_key_order le rows) = set rows"
  unfolding in_key_order_def by (induction rows) (simp_all add: set_insert_by_key)

lemma length_in_key_order: "length (in_key_order le rows) = length rows"
proof -
  have "length (insert_by_key le e xs) = Suc (length xs)" for e xs
    by (induction xs) simp_all
  then show ?thesis unfolding in_key_order_def by (induction rows) simp_all
qed

lemma sorted_insert_by_key:
  assumes total: "\<And>a b. le a b \<or> le b a"
    and trans: "\<And>a b c. le a b \<Longrightarrow> le b c \<Longrightarrow> le a c"
    and "sorted_wrt (\<lambda>x y. le (fst x) (fst y)) xs"
  shows "sorted_wrt (\<lambda>x y. le (fst x) (fst y)) (insert_by_key le e xs)"
  using assms(3)
proof (induction xs)
  case Nil
  then show ?case by simp
next
  case (Cons x xs)
  show ?case
  proof (cases "le (fst e) (fst x)")
    case True
    then show ?thesis using Cons.prems trans by auto
  next
    case False
    then have "le (fst x) (fst e)" using total by blast
    then show ?thesis using False Cons by (auto simp: set_insert_by_key)
  qed
qed

lemma sorted_in_key_order:
  assumes total: "\<And>a b. le a b \<or> le b a"
    and trans: "\<And>a b c. le a b \<Longrightarrow> le b c \<Longrightarrow> le a c"
  shows "sorted_wrt (\<lambda>x y. le (fst x) (fst y)) (in_key_order le rows)"
  unfolding in_key_order_def
proof (induction rows)
  case Nil
  then show ?case by simp
next
  case (Cons e rows)
  have "sorted_wrt (\<lambda>x y. le (fst x) (fst y)) (insert_by_key le e (foldr (insert_by_key le) rows []))"
    using total trans Cons.IH by (rule sorted_insert_by_key)
  then show ?case by simp
qed

subsection \<open>Search\<close>

lemma startsWith_iff: "startsWith s p = (\<exists>b. s = p @ b)"
proof
  assume "startsWith s p"
  then have "s = p @ drop (length p) s"
    by (metis append_take_drop_id startsWith_def)
  then show "\<exists>b. s = p @ b" ..
next
  assume "\<exists>b. s = p @ b"
  then show "startsWith s p" by (auto simp: startsWith_def)
qed

lemma includes_str_iff: "includes_str s sub = (\<exists>a b. s = a @ sub @ b)"
proof (induction s)
  case Nil
  then show ?case by auto
next
  case (Cons c s)
  have "(\<exists>a b. c # s = a @ sub @ b) = ((\<exists>b. c # s = sub @ b) \<or> (\<exists>a b. s = a @ sub @ b))"
  proof
    assume "\<exists>a b. c # s = a @ sub @ b"
    then obtain a b where ab: "c # s = a @ sub @ b" by blast
    show "(\<exists>b. c # s = sub @ b) \<or> (\<exists>a b. s = a @ sub @ b)"
    proof (cases a)
      case Nil
      with ab show ?thesis by auto
    next
      case (Cons x a')
      with ab have "s = a' @ sub @ b" by simp
      then show ?thesis by blast
    qed
  next
    assume "(\<exists>b. c # s = sub @ b) \<or> (\<exists>a b. s = a @ sub @ b)"
    then show "\<exists>a b. c # s = a @ sub @ b"
    proof
      assume "\<exists>b. c # s = sub @ b"
      then obtain b where "c # s = [] @ sub @ b" by auto
      then show ?thesis by blast
    next
      assume "\<exists>a b. s = a @ sub @ b"
      then obtain a b where "s = a @ sub @ b" by blast
      then have "c # s = (c # a) @ sub @ b" by simp
      then show ?thesis by blast
    qed
  qed
  then show ?case by (simp add: Cons.IH startsWith_iff)
qed

lemma search_filter_eq:
  "list_all (\<lambda>p. \<not> isl (searchIndexOf pf p)) products \<Longrightarrow>
     search_filter pf q products
       = Inr (filter (\<lambda>p. case searchIndexOf pf p of
                              Inl e \<Rightarrow> False
                            | Inr ts \<Rightarrow> list_ex (\<lambda>t. includes_str t q) ts) products)"
proof (induction products)
  case Nil
  then show ?case by simp
next
  case (Cons p products)
  then obtain ts where ts: "searchIndexOf pf p = Inr ts"
    by (cases "searchIndexOf pf p") auto
  from Cons show ?case by (simp add: ts)
qed

lemma searchIndexOf_withSearchIndex:
  "withSearchIndex pf PRODUCTS item = Inr stored \<Longrightarrow> searchIndexOf pf stored = buildSearchIndex pf item"
  by (auto simp: withSearchIndex_def searchIndexOf_def getProp_def split: sum.splits)

text \<open>
  Claim C3, as the code has it. On a products store whose records all carry a search
  index (as every record written by \<open>add\<close> or \<open>update\<close> does), \<open>search\<close> returns,
  in the order in which \<open>getAll()\<close> lists them (the ascending order of their keys),
  exactly the records that have an index token containing the query as \<open>toLowerCase\<close>
  and then \<open>trim\<close> leave it: \<open>includes\<close> holds exactly when the query occurs somewhere
  inside the token, so a token equal to the query matches and so does a token of which
  the query is a proper part.
\<close>

theorem search_matches_substrings_of_tokens:
  "(list_all (\<lambda>p. \<not> isl (searchIndexOf pf p)) (Store_getAll pf PRODUCTS s) \<longrightarrow>
      Store_search pf PRODUCTS query s
        = Inr (filter (\<lambda>p. case searchIndexOf pf p of
                               Inl e \<Rightarrow> False
                             | Inr ts \<Rightarrow> list_ex (\<lambda>t. includes_str t (trim pf (toLowerCase pf query))) ts)
                 (Store_getAll pf PRODUCTS s)))
   \<and> includes_str t q = (\<exists>a b. t = a @ q @ b)"
  by (simp add: Store_search_def search_filter_eq includes_str_iff)

text \<open>
  The theorem of claim C3 on a store of three products, written with the keys \<open>p2\<close>,
  \<open>p3\<close> and \<open>p1\<close> in this order, searched for \<open>CUP\<close> with a leading space: the two
  cups are returned, \<open>p1\<close> before \<open>p3\<close>.
\<close>

theorem search_matches_substrings_of_tokens_witness:
  "map_sum id (map (\<lambda>p. getProp p ''ProductID''))
     (Store_search ascii_platform PRODUCTS '' CUP''
        (snd (Store_add ascii_platform PRODUCTS 1000
                [''ProductID'' \<mapsto> JStr ''p1'', ''TenSanPham'' \<mapsto> JStr ''Glass Cup'']
           (snd (Store_add ascii_platform PRODUCTS 1000
                [''ProductID'' \<mapsto> JStr ''p3'', ''TenSanPham'' \<mapsto> JStr ''Tea Cup'']
           (snd (Store_add ascii_platform PRODUCTS 1000
                [''ProductID'' \<mapsto> JStr ''p2'', ''TenSanPham'' \<mapsto> JStr ''Vase''] empty_db)))))))
     = Inr [JStr ''p1'', JStr ''p3'']
   \<and> includes_str ''cup'' ''cup''"
proof -
  let ?s = "snd (Store_add ascii_platform PRODUCTS 1000
                [''ProductID'' \<mapsto> JStr ''p1'', ''TenSanPham'' \<mapsto> JStr ''Glass Cup'']
           (snd (Store_add ascii_platform PRODUCTS 1000
                [''ProductID'' \<mapsto> JStr ''p3'', ''TenSanPham'' \<mapsto> JStr ''Tea Cup'']
           (snd (Store_add ascii_platform PRODUCTS 1000
                [''ProductID'' \<mapsto> JStr ''p2'', ''TenSanPham'' \<mapsto> JStr ''Vase''] empty_db)))))"
  have h: "list_all (\<lambda>p. \<not> isl (searchIndexOf ascii_platform p)) (Store_getAll ascii_platform PRODUCTS ?s)"
    by code_simp
  have e: "Store_search ascii_platform PRODUCTS '' CUP'' ?s
        = Inr (filter (\<lambda>p. case searchIndexOf ascii_platform p of
                               Inl e \<Rightarrow> False
                             | Inr ts \<Rightarrow> list_ex (\<lambda>t. includes_str t (trim ascii_platform (toLowerCase ascii_platform '' CUP''))) ts)
                 (Store_getAll ascii_platform PRODUCTS ?s))"
    and i: "includes_str ''cup'' ''cup'' = (\<exists>a b. ''cup'' = a @ ''cup'' @ b)"
    using search_matches_substrings_of_tokens [of ascii_platform ?s "'' CUP''" "''cup''" "''cup''"] h by blast+
  have "\<exists>a b. ''cup'' = a @ ''cup'' @ b" by (rule exI [of _ "[]"], rule exI [of _ "[]"]) simp
  with i have "includes_str ''cup'' ''cup''" by simp
  moreover have "map_sum id (map (\<lambda>p. getProp p ''ProductID'')) (Store_search ascii_platform PRODUCTS '' CUP'' ?s) = Inr [JStr ''p1'', JStr ''p3'']"
    unfolding e by code_simp
  ultimately show ?thesis by simp
qed

text \<open>
  Claim C3 as stated fails: the product named \<open>Glass Cup\<close> has the tokens \<open>glass\<close>
  and \<open>cup\<close>, and the query \<open>las\<close>, which is none of them and occurs only inside
  the word \<open>glass\<close>, returns it.
\<close>

theorem search_matches_inside_word:
  "map_sum id (map (\<lambda>p. (getProp p ''TenSanPham'', getProp p ''searchIndex'')))
     (Store_search ascii_platform PRODUCTS ''las''
        (snd (Store_add ascii_platform PRODUCTS 1000
                [''ProductID'' \<mapsto> JStr ''p1'', ''TenSanPham'' \<mapsto> JStr ''Glass Cup''] empty_db)))
     = Inr [(JStr ''Glass Cup'', JArr [''glass'', ''cup''])]
   \<and> ''las'' \<notin> set [''glass'', ''cup'']"
  by code_simp

subsection \<open>Update\<close>

lemma keyPath_not_derived: "keyPath sn \<noteq> ''timestamp'' \<and> keyPath sn \<noteq> ''searchIndex''"
  by (cases sn) simp_all

lemma inline_key_valid:
  "valid_key k \<Longrightarrow> getProp item (keyPath sn) = k \<Longrightarrow> \<exists>g. inline_key sn s item = Inr (k, item, g)"
  by (cases k) (auto simp: inline_key_def)

lemma withSearchIndex_frame:
  "withSearchIndex pf sn item = Inr stored \<Longrightarrow>
     (sn = PRODUCTS \<longrightarrow> (\<exists>ts. buildSearchIndex pf item = Inr ts \<and> stored = item(''searchIndex'' \<mapsto> JArr ts)))
     \<and> (sn \<noteq> PRODUCTS \<longrightarrow> stored = item)"
  by (auto simp: withSearchIndex_def split: sum.splits if_splits)

lemma withSearchIndex_key:
  "withSearchIndex pf sn item = Inr stored \<Longrightarrow> getProp stored (keyPath sn) = getProp item (keyPath sn)"
  using keyPath_not_derived [of sn]
  by (auto simp: withSearchIndex_def getProp_def split: sum.splits if_splits)

lemma Store_get_coherent:
  assumes "memoryCache s (cacheKey sn k) = None \<or> memoryCache s (cacheKey sn k) = Some item"
    and "map_of (stores s sn) k = Some item"
    and "valid_key k"
  shows "\<exists>s1. Store_get sn k s = (Inr (Some item), s1) \<and> stores s1 = stores s
            \<and> syncMeta s1 = syncMeta s \<and> nextId s1 = nextId s"
  using assms by (auto simp: Store_get_def idb_get_def)

lemma Store_update_stores:
  assumes coh: "memoryCache s (cacheKey sn k) = None \<or> memoryCache s (cacheKey sn k) = Some item"
    and ex: "map_of (stores s sn) k = Some item"
    and valid: "valid_key k"
    and keyed: "getProp item (keyPath sn) = k"
    and ukey: "u (keyPath sn) = None \<or> u (keyPath sn) = Some k"
    and ok: "Store_update pf sn now k u s = (Inr r, s')"
  shows "\<exists>updatedItem.
           withSearchIndex pf sn ((item ++ u)(''timestamp'' \<mapsto> JNum now)) = Inr updatedItem
           \<and> r = k
           \<and> stores s' = (stores s)(sn := AList.update k updatedItem (stores s sn))
           \<and> syncMeta s' = syncMeta s"
proof -
  obtain s1 where g: "Store_get sn k s = (Inr (Some item), s1)" and st: "stores s1 = stores s"
    and sm: "syncMeta s1 = syncMeta s"
    using Store_get_coherent [OF coh ex valid] by blast
  let ?m = "(item ++ u)(''timestamp'' \<mapsto> JNum now)"
  from ok g obtain updatedItem where w: "withSearchIndex pf sn ?m = Inr updatedItem"
    by (cases "withSearchIndex pf sn ?m") (auto simp: Store_update_def)
  have "getProp ?m (keyPath sn) = k"
    using keyed ukey keyPath_not_derived [of sn]
    by (auto simp: getProp_def map_add_def split: option.splits)
  then have "getProp updatedItem (keyPath sn) = k"
    using withSearchIndex_key [OF w] by simp
  then obtain gen where ik: "inline_key sn s1 updatedItem = Inr (k, updatedItem, gen)"
    using inline_key_valid [OF valid] by blast
  from ok g w ik st sm have "r = k"
    and "stores s' = (stores s)(sn := AList.update k updatedItem (stores s sn))"
    and "syncMeta s' = syncMeta s"
    by (auto simp: Store_update_def idb_put_def)
  with w show ?thesis by blast
qed

text \<open>
  Claim C10, as the code has it. Let the record stored under a key \<open>k\<close> carry \<open>k\<close>
  at the key path of its store, let the in-memory cache hold no other copy of it, and
  let the update \<open>u\<close> leave the key path alone or set it to \<open>k\<close>. When
  \<open>update(k, u)\<close> succeeds, the record stored under \<open>k\<close> has the clock reading as its
  timestamp, in the products store the search index rebuilt from the merged record, and
  for every other property the value of \<open>u\<close> where \<open>u\<close> has one and the previous value
  otherwise; no record under another key and no other store is changed, and no key is
  added or removed.
\<close>

theorem update_frame:
  assumes coh: "memoryCache s (cacheKey sn k) = None \<or> memoryCache s (cacheKey sn k) = Some item"
    and ex: "map_of (stores s sn) k = Some item"
    and valid: "valid_key k"
    and keyed: "getProp item (keyPath sn) = k"
    and ukey: "u (keyPath sn) = None \<or> u (keyPath sn) = Some k"
    and ok: "Store_update pf sn now k u s = (Inr r, s')"
  shows "r = k
    \<and> (\<exists>stored. map_of (stores s' sn) k = Some stored
          \<and> stored ''timestamp'' = Some (JNum now)
          \<and> (\<forall>f. f \<noteq> ''timestamp'' \<and> \<not> (sn = PRODUCTS \<and> f = ''searchIndex'')
                \<longrightarrow> stored f = (case u f of None \<Rightarrow> item f | Some v \<Rightarrow> Some v))
          \<and> (sn = PRODUCTS \<longrightarrow>
                (\<exists>ts. buildSearchIndex pf ((item ++ u)(''timestamp'' \<mapsto> JNum now)) = Inr ts
                      \<and> stored ''searchIndex'' = Some (JArr ts))))
    \<and> (\<forall>k'. k' \<noteq> k \<longrightarrow> map_of (stores s' sn) k' = map_of (stores s sn) k')
    \<and> (\<forall>sn'. sn' \<noteq> sn \<longrightarrow> stores s' sn' = stores s sn')
    \<and> map fst (stores s' sn) = map fst (stores s sn)"
proof -
  let ?m = "(item ++ u)(''timestamp'' \<mapsto> JNum now)"
  obtain updatedItem where w: "withSearchIndex pf sn ?m = Inr updatedItem"
    and r: "r = k"
    and st: "stores s' = (stores s)(sn := AList.update k updatedItem (stores s sn))"
    using Store_update_stores [OF coh ex valid keyed ukey ok] by blast
  have cases_upd: "updatedItem = ?m \<or> (sn = PRODUCTS \<and> (\<exists>ts. updatedItem = ?m(''searchIndex'' \<mapsto> JArr ts)))"
    using withSearchIndex_frame [OF w] by blast
  have look: "map_of (stores s' sn) k = Some updatedItem"
    by (simp add: st update_conv')
  have ts: "updatedItem ''timestamp'' = Some (JNum now)"
    using cases_upd by auto
  have fields: "\<forall>f. f \<noteq> ''timestamp'' \<and> \<not> (sn = PRODUCTS \<and> f = ''searchIndex'')
                \<longrightarrow> updatedItem f = (case u f of None \<Rightarrow> item f | Some v \<Rightarrow> Some v)"
  proof (intro allI impI)
    fix f assume f: "f \<noteq> ''timestamp'' \<and> \<not> (sn = PRODUCTS \<and> f = ''searchIndex'')"
    then have "updatedItem f = (item ++ u) f"
      using cases_upd by auto
    then show "updatedItem f = (case u f of None \<Rightarrow> item f | Some v \<Rightarrow> Some v)"
      by (simp add: map_add_def)
  qed
  have idx: "sn = PRODUCTS \<longrightarrow>
                (\<exists>ts. buildSearchIndex pf ?m = Inr ts \<and> updatedItem ''searchIndex'' = Some (JArr ts))"
  proof
    assume "sn = PRODUCTS"
    then obtain ts where "buildSearchIndex pf ?m = Inr ts"
      and "updatedItem = ?m(''searchIndex'' \<mapsto> JArr ts)"
      using withSearchIndex_frame [OF w] by blast
    then have "buildSearchIndex pf ?m = Inr ts \<and> updatedItem ''searchIndex'' = Some (JArr ts)"
      by simp
    then show "\<exists>ts. buildSearchIndex pf ?m = Inr ts \<and> updatedItem ''searchIndex'' = Some (JArr ts)" ..
  qed
  have others: "\<forall>k'. k' \<noteq> k \<longrightarrow> map_of (stores s' sn) k' = map_of (stores s sn) k'"
    by (simp add: st update_conv')
  have stores_other: "\<forall>sn'. sn' \<noteq> sn \<longrightarrow> stores s' sn' = stores s sn'"
    by (simp add: st)
  have "k \<in> fst ` set (stores s sn)"
    using ex by (metis map_of_eq_None_iff option.distinct(1))
  then have keys: "map fst (stores s' sn) = map fst (stores s sn)"
    by (simp add: st update_keys)
  have "map_of (stores s' sn) k = Some updatedItem
          \<and> updatedItem ''timestamp'' = Some (JNum now)
          \<and> (\<forall>f. f \<noteq> ''timestamp'' \<and> \<not> (sn = PRODUCTS \<and> f = ''searchIndex'')
                \<longrightarrow> updatedItem f = (case u f of None \<Rightarrow> item f | Some v \<Rightarrow> Some v))
          \<and> (sn = PRODUCTS \<longrightarrow>
                (\<exists>ts. buildSearchIndex pf ((item ++ u)(''timestamp'' \<mapsto> JNum now)) = Inr ts
                      \<and> updatedItem ''searchIndex'' = Some (JArr ts)))"
    using look ts fields idx by (intro conjI)
  then have rec: "\<exists>stored. map_of (stores s' sn) k = Some stored
          \<and> stored ''timestamp'' = Some (JNum now)
          \<and> (\<forall>f. f \<noteq> ''timestamp'' \<and> \<not> (sn = PRODUCTS \<and> f = ''searchIndex'')
                \<longrightarrow> stored f = (case u f of None \<Rightarrow> item f | Some v \<Rightarrow> Some v))
          \<and> (sn = PRODUCTS \<longrightarrow>
                (\<exists>ts. buildSearchIndex pf ((item ++ u)(''timestamp'' \<mapsto> JNum now)) = Inr ts
                      \<and> stored ''searchIndex'' = Some (JArr ts)))"
    by (intro exI [of _ updatedItem])
  from r rec others stores_other keys show ?thesis by (intro conjI)
qed

text \<open>
  The theorem of claim C10 on a categories store of two records, renaming the first.
\<close>

theorem update_frame_witness:
  "fst (Store_update ascii_platform CATEGORIES 50 (JStr ''c1'') [''TenDanhMuc'' \<mapsto> JStr ''Coc'']
         (empty_db\<lparr>stores := (stores empty_db)(CATEGORIES :=
            [(JStr ''c1'', [''CategoryID'' \<mapsto> JStr ''c1'', ''TenDanhMuc'' \<mapsto> JStr ''Ly'', ''timestamp'' \<mapsto> JNum 10]),
             (JStr ''c2'', [''CategoryID'' \<mapsto> JStr ''c2'', ''TenDanhMuc'' \<mapsto> JStr ''Binh'', ''timestamp'' \<mapsto> JNum 10])])\<rparr>))
     = Inr (JStr ''c1'')
   \<and> map (\<lambda>e. (fst e, getProp (snd e) ''CategoryID'', getProp (snd e) ''TenDanhMuc'', getProp (snd e) ''timestamp''))
       (stores (snd (Store_update ascii_platform CATEGORIES 50 (JStr ''c1'') [''TenDanhMuc'' \<mapsto> JStr ''Coc'']
         (empty_db\<lparr>stores := (stores empty_db)(CATEGORIES :=
            [(JStr ''c1'', [''CategoryID'' \<mapsto> JStr ''c1'', ''TenDanhMuc'' \<mapsto> JStr ''Ly'', ''timestamp'' \<mapsto> JNum 10]),
             (JStr ''c2'', [''CategoryID'' \<mapsto> JStr ''c2'', ''TenDanhMuc'' \<mapsto> JStr ''Binh'', ''timestamp'' \<mapsto> JNum 10])])\<rparr>)))
          CATEGORIES)
     = [(JStr ''c1'', JStr ''c1'', JStr ''Coc'', JNum 50), (JStr ''c2'', JStr ''c2'', JStr ''Binh'', JNum 10)]
   \<and> map_of (stores (snd (Store_update ascii_platform CATEGORIES 50 (JStr ''c1'') [''TenDanhMuc'' \<mapsto> JStr ''Coc'']
         (empty_db\<lparr>stores := (stores empty_db)(CATEGORIES :=
            [(JStr ''c1'', [''CategoryID'' \<mapsto> JStr ''c1'', ''TenDanhMuc'' \<mapsto> JStr ''Ly'', ''timestamp'' \<mapsto> JNum 10]),
             (JStr ''c2'', [''CategoryID'' \<mapsto> JStr ''c2'', ''TenDanhMuc'' \<mapsto> JStr ''Binh'', ''timestamp'' \<mapsto> JNum 10])])\<rparr>)))
          CATEGORIES) (JStr ''c2'')
     = Some [''CategoryID'' \<mapsto> JStr ''c2'', ''TenDanhMuc'' \<mapsto> JStr ''Binh'', ''timestamp'' \<mapsto> JNum 10]"
proof -
  let ?item = "[''CategoryID'' \<mapsto> JStr ''c1'', ''TenDanhMuc'' \<mapsto> JStr ''Ly'', ''timestamp'' \<mapsto> JNum 10]"
  let ?other = "[''CategoryID'' \<mapsto> JStr ''c2'', ''TenDanhMuc'' \<mapsto> JStr ''Binh'', ''timestamp'' \<mapsto> JNum 10]"
  let ?s = "empty_db\<lparr>stores := (stores empty_db)(CATEGORIES := [(JStr ''c1'', ?item), (JStr ''c2'', ?other)])\<rparr>"
  let ?u = "[''TenDanhMuc'' \<mapsto> JStr ''Coc'']"
  let ?res = "Store_update ascii_platform CATEGORIES 50 (JStr ''c1'') ?u ?s"
  have r: "fst ?res = Inr (JStr ''c1'')" by code_simp
  have vals: "map (\<lambda>e. (fst e, getProp (snd e) ''CategoryID'', getProp (snd e) ''TenDanhMuc'', getProp (snd e) ''timestamp''))
       (stores (snd ?res) CATEGORIES)
     = [(JStr ''c1'', JStr ''c1'', JStr ''Coc'', JNum 50), (JStr ''c2'', JStr ''c2'', JStr ''Binh'', JNum 10)]"
    by code_simp
  have ok: "?res = (Inr (JStr ''c1''), snd ?res)"
    using r by (metis prod.collapse)
  have coh: "memoryCache ?s (cacheKey CATEGORIES (JStr ''c1'')) = None
             \<or> memoryCache ?s (cacheKey CATEGORIES (JStr ''c1'')) = Some ?item"
    by (simp add: empty_db_def)
  have ex: "map_of (stores ?s CATEGORIES) (JStr ''c1'') = Some ?item" by simp
  have keyed: "getProp ?item (keyPath CATEGORIES) = JStr ''c1''" by (simp add: getProp_def)
  have ukey: "?u (keyPath CATEGORIES) = None \<or> ?u (keyPath CATEGORIES) = Some (JStr ''c1'')" by simp
  have "\<forall>k'. k' \<noteq> JStr ''c1'' \<longrightarrow>
          map_of (stores (snd ?res) CATEGORIES) k' = map_of (stores ?s CATEGORIES) k'"
    using update_frame [OF coh ex _ keyed ukey ok] by simp
  then have "map_of (stores (snd ?res) CATEGORIES) (JStr ''c2'') = map_of (stores ?s CATEGORIES) (JStr ''c2'')"
    by simp
  then have "map_of (stores (snd ?res) CATEGORIES) (JStr ''c2'') = Some ?other" by simp
  with r vals show ?thesis by simp
qed

text \<open>
  Claim C10 as stated fails: an update of the product \<open>p1\<close> whose fields name the key
  \<open>p2\<close> succeeds, leaves the record \<open>p1\<close> as it was and overwrites the record
  \<open>p2\<close>; and the timestamp it stores is the clock reading, not the one in the update.
\<close>

theorem update_moves_record_to_other_key:
  "fst (Store_update ascii_platform PRODUCTS 50 (JStr ''p1'')
          [''ProductID'' \<mapsto> JStr ''p2'', ''TenSanPham'' \<mapsto> JStr ''Bowl'', ''timestamp'' \<mapsto> JNum 7]
          (snd (Store_add ascii_platform PRODUCTS 10 [''ProductID'' \<mapsto> JStr ''p2'', ''TenSanPham'' \<mapsto> JStr ''Vase'']
             (snd (Store_add ascii_platform PRODUCTS 10 [''ProductID'' \<mapsto> JStr ''p1'', ''TenSanPham'' \<mapsto> JStr ''Cup''] empty_db)))))
     = Inr (JStr ''p2'')
   \<and> map (\<lambda>e. (fst e, getProp (snd e) ''TenSanPham'', getProp (snd e) ''timestamp''))
       (stores (snd (Store_update ascii_platform PRODUCTS 50 (JStr ''p1'')
          [''ProductID'' \<mapsto> JStr ''p2'', ''TenSanPham'' \<mapsto> JStr ''Bowl'', ''timestamp'' \<mapsto> JNum 7]
          (snd (Store_add ascii_platform PRODUCTS 10 [''ProductID'' \<mapsto> JStr ''p2'', ''TenSanPham'' \<mapsto> JStr ''Vase'']
             (snd (Store_add ascii_platform PRODUCTS 10 [''ProductID'' \<mapsto> JStr ''p1'', ''TenSanPham'' \<mapsto> JStr ''Cup''] empty_db))))))
         PRODUCTS)
     = [(JStr ''p1'', JStr ''Cup'', JNum 10), (JStr ''p2'', JStr ''Bowl'', JNum 50)]"
  by code_simp

section \<open>Properties of the synchronisation\<close>

lemma Store_add_syncMeta: "syncMeta (snd (Store_add pf sn now d s)) = syncMeta s"
  by (auto simp: Store_add_def idb_add_def split: sum.splits prod.splits)

lemma Store_get_syncMeta: "syncMeta (snd (Store_get sn k s)) = syncMeta s"
  by (auto simp: Store_get_def split: sum.splits option.splits)

lemma Store_update_syncMeta: "syncMeta (snd (Store_update pf sn now k u s)) = syncMeta s"
proof -
  obtain g s1 where g: "Store_get sn k s = (g, s1)" by (cases "Store_get sn k s")
  then have "syncMeta s1 = syncMeta s" using Store_get_syncMeta [of sn k s] by simp
  then show ?thesis using g
    by (auto simp: Store_update_def idb_put_def split: sum.splits option.splits prod.splits)
qed

lemma pull_item_syncMeta: "syncMeta (snd (pull_item pf sn now item s)) = syncMeta s"
proof -
  obtain a s1 where a: "Store_add pf sn now item s = (a, s1)" by (cases "Store_add pf sn now item s")
  then have s1: "syncMeta s1 = syncMeta s" using Store_add_syncMeta [of pf sn now item s] by simp
  show ?thesis
  proof (cases a)
    case (Inr k)
    then show ?thesis using a s1 by (simp add: pull_item_def)
  next
    case (Inl e)
    show ?thesis
    proof (cases "e = ConstraintError")
      case True
      then show ?thesis
        using a Inl s1 Store_update_syncMeta [of pf sn now "getKey sn item" item s1]
        by (simp add: pull_item_def)
    next
      case False
      then show ?thesis using a Inl s1 by (cases e) (simp_all add: pull_item_def)
    qed
  qed
qed

lemma pull_items_syncMeta: "syncMeta (snd (pull_items pf sn now items s)) = syncMeta s"
proof (induction items arbitrary: s)
  case Nil
  then show ?case by simp
next
  case (Cons item items)
  obtain a s1 where a: "pull_item pf sn now item s = (a, s1)" by (cases "pull_item pf sn now item s")
  then have s1: "syncMeta s1 = syncMeta s" using pull_item_syncMeta [of pf sn now item s] by simp
  show ?case
  proof (cases a)
    case (Inr k)
    then show ?thesis using a s1 Cons.IH [of s1] by simp
  next
    case (Inl e)
    then show ?thesis using a s1 by simp
  qed
qed

lemma pull_watermark:
  "syncMeta (snd (pull pf sn now fetched s))
     = (if isl (fst (pull pf sn now fetched s)) then syncMeta s else (syncMeta s)(sn \<mapsto> now))"
proof (cases fetched)
  case FetchRejected
  then show ?thesis by (simp add: pull_def)
next
  case (FetchResponse st parsed)
  show ?thesis
  proof (cases "200 \<le> st \<and> st \<le> 299")
    case False
    then show ?thesis using FetchResponse by (auto simp: pull_def)
  next
    case True
    show ?thesis
    proof (cases parsed)
      case None
      then show ?thesis using FetchResponse True by (simp add: pull_def)
    next
      case (Some result)
      show ?thesis
      proof (cases "success result")
        case False
        then show ?thesis using FetchResponse True Some by (simp add: pull_def)
      next
        case suc: True
        show ?thesis
        proof (cases "data result")
          case (Items items)
          obtain r s1 where p: "pull_items pf sn now items s = (r, s1)"
            by (cases "pull_items pf sn now items s")
          then have "syncMeta s1 = syncMeta s" using pull_items_syncMeta [of pf sn now items s] by simp
          then show ?thesis using FetchResponse True Some suc Items p
            by (cases r) (simp_all add: pull_def updateSyncMeta_def)
        next
          case (Single d)
          obtain r s1 where p: "Store_add pf sn now d s = (r, s1)"
            by (cases "Store_add pf sn now d s")
          then have "syncMeta s1 = syncMeta s" using Store_add_syncMeta [of pf sn now d s] by simp
          then show ?thesis using FetchResponse True Some suc Single p
            by (cases r) (simp_all add: pull_def updateSyncMeta_def)
        qed
      qed
    qed
  qed
qed

text \<open>
  Claim C8. \<open>pull\<close> is to fall back to \<open>update\<close> whenever \<open>add\<close> fails on a
  duplicate key, and advances \<open>lastSync\<close> exactly when it succeeds
  (\<open>pull_watermark\<close>). The loop over an array snapshot has the fallback; the branch
  for a snapshot that is a single object calls \<open>add\<close> alone. With the product \<open>p1\<close>
  stored, pulling \<open>p1\<close> as a single object fails with the constraint error and leaves
  the record as it was, where pulling it in an array updates the record.
\<close>

theorem pull_single_object_has_no_fallback:
  "map_sum id (\<lambda>d. ())
     (fst (pull ascii_platform PRODUCTS 2000
        (FetchResponse 200 (Some \<lparr>success = True,
           data = Single [''ProductID'' \<mapsto> JStr ''p1'', ''TenSanPham'' \<mapsto> JStr ''Mug'']\<rparr>))
        (snd (Store_add ascii_platform PRODUCTS 1000 [''ProductID'' \<mapsto> JStr ''p1'', ''TenSanPham'' \<mapsto> JStr ''Cup''] empty_db))))
     = Inl ConstraintError
   \<and> map (\<lambda>e. (fst e, getProp (snd e) ''TenSanPham''))
       (stores (snd (pull ascii_platform PRODUCTS 2000
        (FetchResponse 200 (Some \<lparr>success = True,
           data = Single [''ProductID'' \<mapsto> JStr ''p1'', ''TenSanPham'' \<mapsto> JStr ''Mug'']\<rparr>))
        (snd (Store_add ascii_platform PRODUCTS 1000 [''ProductID'' \<mapsto> JStr ''p1'', ''TenSanPham'' \<mapsto> JStr ''Cup''] empty_db))))
         PRODUCTS)
     = [(JStr ''p1'', JStr ''Cup'')]
   \<and> map_sum id (\<lambda>d. ())
     (fst (pull ascii_platform PRODUCTS 2000
        (FetchResponse 200 (Some \<lparr>success = True,
           data = Items [[''ProductID'' \<mapsto> JStr ''p1'', ''TenSanPham'' \<mapsto> JStr ''Mug'']]\<rparr>))
        (snd (Store_add ascii_platform PRODUCTS 1000 [''ProductID'' \<mapsto> JStr ''p1'', ''TenSanPham'' \<mapsto> JStr ''Cup''] empty_db))))
     = Inr ()
   \<and> map (\<lambda>e. (fst e, getProp (snd e) ''TenSanPham''))
       (stores (snd (pull ascii_platform PRODUCTS 2000
        (FetchResponse 200 (Some \<lparr>success = True,
           data = Items [[''ProductID'' \<mapsto> JStr ''p1'', ''TenSanPham'' \<mapsto> JStr ''Mug'']]\<rparr>))
        (snd (Store_add ascii_platform PRODUCTS 1000 [''ProductID'' \<mapsto> JStr ''p1'', ''TenSanPham'' \<mapsto> JStr ''Cup''] empty_db))))
         PRODUCTS)
     = [(JStr ''p1'', JStr ''Mug'')]"
  by code_simp

section \<open>Pulling the same snapshot twice\<close>

lemma erase_derived_add: "erase_derived sn (a ++ b) = erase_derived sn a ++ erase_derived sn b"
  by (rule ext) (simp add: erase_derived_def map_add_def)

lemma erase_derived_timestamp [simp]: "erase_derived sn (r(''timestamp'' \<mapsto> v)) = erase_derived sn r"
  by (rule ext) (simp add: erase_derived_def)

lemma erase_derived_searchIndex [simp]:
  "erase_derived PRODUCTS (r(''searchIndex'' \<mapsto> v)) = erase_derived PRODUCTS r"
  by (rule ext) (simp add: erase_derived_def)

lemma field_terms_cong: "getProp a f = getProp b f \<Longrightarrow> field_terms pf a f sp = field_terms pf b f sp"
  by (simp add: field_terms_def)

lemma buildSearchIndex_cong:
  assumes "getProp a ''TenSanPham'' = getProp b ''TenSanPham''"
    and "getProp a ''MoTa'' = getProp b ''MoTa''"
    and "getProp a ''Brand'' = getProp b ''Brand''"
    and "getProp a ''Group'' = getProp b ''Group''"
  shows "buildSearchIndex pf a = buildSearchIndex pf b"
  unfolding buildSearchIndex_def
    field_terms_cong [OF assms(1)] field_terms_cong [OF assms(2)]
    field_terms_cong [OF assms(3)] field_terms_cong [OF assms(4)]
  by (rule refl)

lemma getProp_erase:
  "f \<noteq> ''timestamp'' \<Longrightarrow> f \<noteq> ''searchIndex'' \<Longrightarrow> getProp (erase_derived sn r) f = getProp r f"
  by (simp add: getProp_def erase_derived_def)

lemma buildSearchIndex_erase: "buildSearchIndex pf (erase_derived sn r) = buildSearchIndex pf r"
  by (rule buildSearchIndex_cong) (simp_all add: getProp_erase)

lemma buildSearchIndex_upd_derived [simp]:
  "buildSearchIndex pf (r(''timestamp'' \<mapsto> v)) = buildSearchIndex pf r"
  "buildSearchIndex pf (r(''searchIndex'' \<mapsto> v)) = buildSearchIndex pf r"
  by (rule buildSearchIndex_cong; simp add: getProp_def)+

lemma stored_as_withSearchIndex:
  "withSearchIndex pf sn (m(''timestamp'' \<mapsto> JNum now)) = Inr upd \<Longrightarrow>
     stored_as pf sn now (erase_derived sn m) upd"
  by (auto simp: withSearchIndex_def stored_as_def split: if_splits sum.splits)

lemma stored_as_retime:
  assumes "stored_as pf sn now1 c r1" and "stored_as pf sn now2 c r2"
  shows "r2 = r1(''timestamp'' \<mapsto> JNum now2)"
proof (rule ext)
  fix f
  have e: "erase_derived sn r1 = erase_derived sn r2"
    using assms by (simp add: stored_as_def)
  show "r2 f = (r1(''timestamp'' \<mapsto> JNum now2)) f"
  proof (cases "f = ''timestamp''")
    case True
    then show ?thesis using assms(2) by (simp add: stored_as_def)
  next
    case nt: False
    show ?thesis
    proof (cases "sn = PRODUCTS \<and> f = ''searchIndex''")
      case True
      have "buildSearchIndex pf r1 = buildSearchIndex pf r2"
        using e by (metis buildSearchIndex_erase)
      then show ?thesis using True assms by (auto simp: stored_as_def)
    next
      case False
      then have "erase_derived sn r1 f = r1 f" "erase_derived sn r2 f = r2 f"
        using nt by (auto simp: erase_derived_def)
      then show ?thesis using e nt by simp
    qed
  qed
qed

lemma getKey_keyPath: "pull_keyed sn \<Longrightarrow> getKey sn item = getProp item (keyPath sn)"
  by (auto simp: pull_keyed_def getKey_def)

lemma pull_keyed_not_queue: "pull_keyed sn \<Longrightarrow> sn \<noteq> OFFLINE_ORDERS"
  by (auto simp: pull_keyed_def)

lemma update_absent: "map_of al k = None \<Longrightarrow> AList.update k v al = al @ [(k, v)]"
  by (induction al) (auto split: if_splits)

lemma inline_key_keyed:
  assumes "sn \<noteq> OFFLINE_ORDERS"
  shows "inline_key sn s item
           = (if valid_key (getProp item (keyPath sn))
              then Inr (getProp item (keyPath sn), item, nextId s) else Inl DataError)"
  using assms by (cases "getProp item (keyPath sn)") (simp_all add: inline_key_def)

lemma withSearchIndex_error: "withSearchIndex pf sn item = Inl e \<Longrightarrow> e = TypeError"
  by (auto simp: withSearchIndex_def buildSearchIndex_def field_terms_def Let_def
      split: if_splits sum.splits jsval.splits)

lemma Store_add_cases:
  assumes keyed: "pull_keyed sn"
  shows "Store_add pf sn now item s =
     (case withSearchIndex pf sn (item(''timestamp'' \<mapsto> JNum now)) of
        Inl e \<Rightarrow> (Inl TypeError, s)
      | Inr upd \<Rightarrow>
          if \<not> valid_key (getProp item (keyPath sn)) then (Inl DataError, s)
          else if map_of (stores s sn) (getProp item (keyPath sn)) \<noteq> None then (Inl ConstraintError, s)
          else (Inr (getProp item (keyPath sn)),
                s\<lparr>stores := (stores s)(sn := AList.update (getProp item (keyPath sn)) upd (stores s sn)),
                  nextId := nextId s\<rparr>))"
proof (cases "withSearchIndex pf sn (item(''timestamp'' \<mapsto> JNum now))")
  case (Inl e)
  then show ?thesis using withSearchIndex_error [OF Inl] by (simp add: Store_add_def)
next
  case (Inr upd)
  have k: "getProp upd (keyPath sn) = getProp item (keyPath sn)"
    using Inr keyed
    by (auto simp: withSearchIndex_def getProp_def pull_keyed_def split: if_splits sum.splits)
  show ?thesis
    using Inr k pull_keyed_not_queue [OF keyed]
    by (auto simp: Store_add_def idb_add_def inline_key_keyed update_absent)
qed

lemma withSearchIndex_keyPath:
  "withSearchIndex pf sn item = Inr stored \<Longrightarrow> getProp stored (keyPath sn) = getProp item (keyPath sn)"
proof -
  assume w: "withSearchIndex pf sn item = Inr stored"
  have "keyPath sn \<noteq> ''searchIndex''" by (cases sn) simp_all
  with w show ?thesis
    by (auto simp: withSearchIndex_def getProp_def split: if_splits sum.splits)
qed

lemma getProp_timestamp_keyPath:
  "getProp (m(''timestamp'' \<mapsto> v)) (keyPath sn) = getProp m (keyPath sn)"
proof -
  have "keyPath sn \<noteq> ''timestamp''" by (cases sn) simp_all
  then show ?thesis by (simp add: getProp_def)
qed

lemma Store_update_cases:
  assumes coh: "memoryCache s (cacheKey sn k) = None \<or> memoryCache s (cacheKey sn k) = Some old"
    and ex: "map_of (stores s sn) k = Some old"
    and valid: "valid_key k"
    and key: "getProp (old ++ u) (keyPath sn) = k"
    and w: "withSearchIndex pf sn ((old ++ u)(''timestamp'' \<mapsto> JNum now)) = Inr upd"
  shows "fst (Store_update pf sn now k u s) = Inr k
    \<and> stores (snd (Store_update pf sn now k u s)) = (stores s)(sn := AList.update k upd (stores s sn))
    \<and> memoryCache (snd (Store_update pf sn now k u s)) = (memoryCache s)(cacheKey sn k \<mapsto> upd)"
proof -
  have "getProp upd (keyPath sn) = k"
    using withSearchIndex_keyPath [OF w] key by (simp add: getProp_timestamp_keyPath)
  then have ik: "\<And>t. \<exists>g. inline_key sn t upd = Inr (k, upd, g)"
    using valid by (cases k) (auto simp: inline_key_def)
  show ?thesis
  proof (cases "memoryCache s (cacheKey sn k)")
    case None
    let ?s1 = "s\<lparr>memoryCache := (memoryCache s)(cacheKey sn k \<mapsto> old)\<rparr>"
    have g: "Store_get sn k s = (Inr (Some old), ?s1)"
      using None ex valid by (simp add: Store_get_def idb_get_def)
    obtain gen where "inline_key sn ?s1 upd = Inr (k, upd, gen)" using ik by blast
    then show ?thesis using g w by (simp add: Store_update_def idb_put_def)
  next
    case (Some v)
    then have v: "v = old" using coh by simp
    have g: "Store_get sn k s = (Inr (Some old), s)"
      using Some v by (simp add: Store_get_def)
    obtain gen where "inline_key sn s upd = Inr (k, upd, gen)" using ik by blast
    then show ?thesis using g w by (simp add: Store_update_def idb_put_def)
  qed
qed

lemma Store_update_index:
  assumes coh: "memoryCache s (cacheKey sn k) = None \<or> memoryCache s (cacheKey sn k) = Some old"
    and ex: "map_of (stores s sn) k = Some old"
    and valid: "valid_key k"
    and ok: "fst (Store_update pf sn now k u s) = Inr r"
  shows "\<exists>upd. withSearchIndex pf sn ((old ++ u)(''timestamp'' \<mapsto> JNum now)) = Inr upd"
proof (cases "withSearchIndex pf sn ((old ++ u)(''timestamp'' \<mapsto> JNum now))")
  case (Inr upd)
  then show ?thesis by blast
next
  case (Inl e)
  have "\<exists>s1. Store_get sn k s = (Inr (Some old), s1)"
    using coh ex valid by (cases "memoryCache s (cacheKey sn k)") (auto simp: Store_get_def idb_get_def)
  then obtain s1 where "Store_get sn k s = (Inr (Some old), s1)" by blast
  then have "fst (Store_update pf sn now k u s) = Inl e"
    using Inl by (simp add: Store_update_def)
  with ok show ?thesis by simp
qed

lemma cacheKey_inj:
  "inj_on js_toString K \<Longrightarrow> k \<in> K \<Longrightarrow> k' \<in> K \<Longrightarrow> cacheKey sn k = cacheKey sn k' \<Longrightarrow> k = k'"
  by (simp add: cacheKey_def inj_on_def)

lemma valid_key_prop: "valid_key (getProp item f) \<Longrightarrow> item f = Some (getProp item f)"
  by (cases "item f") (auto simp: getProp_def)

lemma pull_item_effect:
  assumes keyed: "pull_keyed sn"
    and coh: "cache_coherent sn K s"
    and inj: "inj_on js_toString K"
    and kin: "getKey sn item \<in> K"
    and ok: "fst (pull_item pf sn now item s) = Inr r"
  shows "valid_key (getKey sn item)
    \<and> (\<exists>upd. stored_as pf sn now (eraseo sn (map_of (stores s sn) (getKey sn item)) ++ erase_derived sn item) upd
          \<and> stores (snd (pull_item pf sn now item s))
              = (stores s)(sn := AList.update (getKey sn item) upd (stores s sn)))
    \<and> cache_coherent sn K (snd (pull_item pf sn now item s))
    \<and> (sn = PRODUCTS \<longrightarrow> \<not> isl (buildSearchIndex pf item))"
proof -
  let ?k = "getKey sn item"
  have kp: "getProp item (keyPath sn) = ?k" using getKey_keyPath [OF keyed] by simp
  note ac = Store_add_cases [OF keyed, of pf now item s, unfolded kp]
  show ?thesis
  proof (cases "withSearchIndex pf sn (item(''timestamp'' \<mapsto> JNum now))")
    case (Inl e)
    then have "fst (pull_item pf sn now item s) = Inl TypeError"
      using ac by (simp add: pull_item_def)
    with ok show ?thesis by simp
  next
    case (Inr upd0)
    have build: "sn = PRODUCTS \<longrightarrow> \<not> isl (buildSearchIndex pf item)"
      using Inr by (auto simp: withSearchIndex_def split: sum.splits)
    show ?thesis
    proof (cases "valid_key ?k")
      case False
      then have "fst (pull_item pf sn now item s) = Inl DataError"
        using ac Inr by (simp add: pull_item_def)
      with ok show ?thesis by simp
    next
      case valid: True
      show ?thesis
      proof (cases "map_of (stores s sn) ?k")
        case None
        let ?s1 = "s\<lparr>stores := (stores s)(sn := AList.update ?k upd0 (stores s sn)), nextId := nextId s\<rparr>"
        have res: "pull_item pf sn now item s = (Inr ?k, ?s1)"
          using ac Inr valid None by (simp add: pull_item_def)
        have st: "stored_as pf sn now (eraseo sn None ++ erase_derived sn item) upd0"
          using stored_as_withSearchIndex [OF Inr] by (simp add: eraseo_def)
        have "cache_coherent sn K ?s1"
          unfolding cache_coherent_def
        proof (intro ballI allI impI)
          fix k' v assume k': "k' \<in> K" and c: "memoryCache ?s1 (cacheKey sn k') = Some v"
          then have old: "map_of (stores s sn) k' = Some v"
            using coh by (simp add: cache_coherent_def)
          then have "k' \<noteq> ?k" using None by auto
          then show "map_of (stores ?s1 sn) k' = Some v" using old by (simp add: update_conv')
        qed
        then show ?thesis using res st None valid build by auto
      next
        case (Some old)
        have add: "Store_add pf sn now item s = (Inl ConstraintError, s)"
          using ac Inr valid Some by simp
        then have res: "pull_item pf sn now item s = Store_update pf sn now ?k item s"
          by (simp add: pull_item_def)
        have c1: "memoryCache s (cacheKey sn ?k) = None \<or> memoryCache s (cacheKey sn ?k) = Some old"
        proof (cases "memoryCache s (cacheKey sn ?k)")
          case None
          then show ?thesis by simp
        next
          case (Some v)
          then have "map_of (stores s sn) ?k = Some v"
            using coh kin by (simp add: cache_coherent_def)
          then show ?thesis using Some \<open>map_of (stores s sn) ?k = Some old\<close> by simp
        qed
        have "item (keyPath sn) = Some ?k" using valid_key_prop [of item "keyPath sn"] valid kp by simp
        then have key: "getProp (old ++ item) (keyPath sn) = ?k"
          by (simp add: getProp_def map_add_def)
        have "fst (Store_update pf sn now ?k item s) = Inr r" using ok res by simp
        then obtain upd where w: "withSearchIndex pf sn ((old ++ item)(''timestamp'' \<mapsto> JNum now)) = Inr upd"
          using Store_update_index [OF c1 Some valid] by blast
        note eff = Store_update_cases [OF c1 Some valid key w]
        have st: "stored_as pf sn now (eraseo sn (Some old) ++ erase_derived sn item) upd"
          using stored_as_withSearchIndex [OF w] by (simp add: eraseo_def erase_derived_add)
        let ?s1 = "snd (Store_update pf sn now ?k item s)"
        have "cache_coherent sn K ?s1"
          unfolding cache_coherent_def
        proof (intro ballI allI impI)
          fix k' v assume k': "k' \<in> K" and c: "memoryCache ?s1 (cacheKey sn k') = Some v"
          show "map_of (stores ?s1 sn) k' = Some v"
          proof (cases "k' = ?k")
            case True
            then show ?thesis using c eff by (simp add: update_conv')
          next
            case False
            then have "cacheKey sn k' \<noteq> cacheKey sn ?k"
              using cacheKey_inj [OF inj k' kin] by blast
            then have "memoryCache s (cacheKey sn k') = Some v" using c eff by simp
            then have "map_of (stores s sn) k' = Some v"
              using coh k' by (simp add: cache_coherent_def)
            then show ?thesis using False eff by (simp add: update_conv')
          qed
        qed
        then show ?thesis using res st Some valid build eff by auto
      qed
    qed
  qed
qed

lemma merged_absent: "k \<notin> getKey sn ` set items \<Longrightarrow> merged sn items k = Map.empty"
  by (induction items) auto

lemma stored_as_erase: "stored_as pf sn now c r \<Longrightarrow> erase_derived sn r = c"
  by (simp add: stored_as_def)

lemma stored_as_build: "stored_as pf PRODUCTS now c r \<Longrightarrow> \<not> isl (buildSearchIndex pf r)"
  by (auto simp: stored_as_def)

lemma pull_items_effect:
  assumes keyed: "pull_keyed sn" and inj: "inj_on js_toString K"
  shows "cache_coherent sn K s \<Longrightarrow> getKey sn ` set items \<subseteq> K \<Longrightarrow>
         fst (pull_items pf sn now items s) = Inr u \<Longrightarrow>
         (\<forall>k. k \<notin> getKey sn ` set items \<longrightarrow>
               map_of (stores (snd (pull_items pf sn now items s)) sn) k = map_of (stores s sn) k)
       \<and> (\<forall>k \<in> getKey sn ` set items. \<exists>r.
               map_of (stores (snd (pull_items pf sn now items s)) sn) k = Some r
               \<and> stored_as pf sn now (eraseo sn (map_of (stores s sn) k) ++ merged sn items k) r)
       \<and> (getKey sn ` set items \<subseteq> fst ` set (stores s sn) \<longrightarrow>
             map fst (stores (snd (pull_items pf sn now items s)) sn) = map fst (stores s sn))
       \<and> cache_coherent sn K (snd (pull_items pf sn now items s))
       \<and> (\<forall>sn'. sn' \<noteq> sn \<longrightarrow> stores (snd (pull_items pf sn now items s)) sn' = stores s sn')
       \<and> (\<forall>item \<in> set items. valid_key (getKey sn item)
               \<and> (sn = PRODUCTS \<longrightarrow> \<not> isl (buildSearchIndex pf item)))"
proof (induction items arbitrary: s)
  case Nil
  then show ?case by simp
next
  case (Cons item items)
  let ?k0 = "getKey sn item"
  obtain a s1 where p: "pull_item pf sn now item s = (a, s1)" by (cases "pull_item pf sn now item s")
  from Cons.prems(3) p obtain r0 where a: "a = Inr r0"
    by (cases a) auto
  have unroll: "pull_items pf sn now (item # items) s = pull_items pf sn now items s1"
    using p a by simp
  have rest_ok: "fst (pull_items pf sn now items s1) = Inr u"
    using Cons.prems(3) unroll by simp
  have kin: "?k0 \<in> K" using Cons.prems(2) by simp
  have sub: "getKey sn ` set items \<subseteq> K" using Cons.prems(2) by simp
  have ok1: "fst (pull_item pf sn now item s) = Inr r0" using p a by simp
  note eff = pull_item_effect [OF keyed Cons.prems(1) inj kin ok1, unfolded p snd_conv]
  from eff obtain upd where valid0: "valid_key ?k0"
    and upd: "stored_as pf sn now (eraseo sn (map_of (stores s sn) ?k0) ++ erase_derived sn item) upd"
    and st1: "stores s1 = (stores s)(sn := AList.update ?k0 upd (stores s sn))"
    and coh1: "cache_coherent sn K s1"
    and build0: "sn = PRODUCTS \<longrightarrow> \<not> isl (buildSearchIndex pf item)"
    by blast
  note IH = Cons.IH [OF coh1 sub rest_ok]
  let ?s' = "snd (pull_items pf sn now items s1)"
  have look1: "\<And>k. map_of (stores s1 sn) k = (if k = ?k0 then Some upd else map_of (stores s sn) k)"
    by (simp add: st1 update_conv')
  have c1: "\<forall>k. k \<notin> getKey sn ` set (item # items) \<longrightarrow>
               map_of (stores ?s' sn) k = map_of (stores s sn) k"
  proof (intro allI impI)
    fix k assume k: "k \<notin> getKey sn ` set (item # items)"
    then have "k \<notin> getKey sn ` set items" and "k \<noteq> ?k0" by auto
    then show "map_of (stores ?s' sn) k = map_of (stores s sn) k"
      using IH look1 by simp
  qed
  have c2: "\<forall>k \<in> getKey sn ` set (item # items). \<exists>r.
               map_of (stores ?s' sn) k = Some r
               \<and> stored_as pf sn now (eraseo sn (map_of (stores s sn) k) ++ merged sn (item # items) k) r"
  proof
    fix k assume k: "k \<in> getKey sn ` set (item # items)"
    show "\<exists>r. map_of (stores ?s' sn) k = Some r
               \<and> stored_as pf sn now (eraseo sn (map_of (stores s sn) k) ++ merged sn (item # items) k) r"
    proof (cases "k \<in> getKey sn ` set items")
      case True
      then obtain r where r: "map_of (stores ?s' sn) k = Some r"
        and sr: "stored_as pf sn now (eraseo sn (map_of (stores s1 sn) k) ++ merged sn items k) r"
        using IH by blast
      have "eraseo sn (map_of (stores s1 sn) k) ++ merged sn items k
              = eraseo sn (map_of (stores s sn) k) ++ merged sn (item # items) k"
      proof (cases "k = ?k0")
        case True
        have "eraseo sn (map_of (stores s1 sn) k) = eraseo sn (map_of (stores s sn) k) ++ erase_derived sn item"
          using True look1 stored_as_erase [OF upd] by (simp add: eraseo_def)
        then show ?thesis using True by simp
      next
        case False
        then show ?thesis using look1 by simp
      qed
      then show ?thesis using r sr by auto
    next
      case False
      then have k0: "k = ?k0" using k by auto
      have "map_of (stores ?s' sn) k = Some upd"
        using IH False look1 k0 by simp
      moreover have "merged sn (item # items) k = erase_derived sn item"
        using merged_absent [OF False] k0 by simp
      ultimately show ?thesis using upd k0 by auto
    qed
  qed
  have c3: "getKey sn ` set (item # items) \<subseteq> fst ` set (stores s sn) \<longrightarrow>
             map fst (stores ?s' sn) = map fst (stores s sn)"
  proof
    assume all: "getKey sn ` set (item # items) \<subseteq> fst ` set (stores s sn)"
    then have "?k0 \<in> fst ` set (stores s sn)" by simp
    then have keys1: "map fst (stores s1 sn) = map fst (stores s sn)"
      by (simp add: st1 update_keys)
    then have "fst ` set (stores s1 sn) = fst ` set (stores s sn)"
      by (metis set_map)
    then have "getKey sn ` set items \<subseteq> fst ` set (stores s1 sn)" using all by simp
    then show "map fst (stores ?s' sn) = map fst (stores s sn)" using IH keys1 by simp
  qed
  have c4: "cache_coherent sn K ?s'" using IH by blast
  have c5: "\<forall>sn'. sn' \<noteq> sn \<longrightarrow> stores ?s' sn' = stores s sn'"
    using IH st1 by simp
  have c6: "\<forall>it \<in> set (item # items). valid_key (getKey sn it)
               \<and> (sn = PRODUCTS \<longrightarrow> \<not> isl (buildSearchIndex pf it))"
    using IH valid0 build0 by simp
  show ?case unfolding unroll using c1 c2 c3 c4 c5 c6 by (intro conjI)
qed

lemma field_terms_isl:
  "isl (field_terms pf m f sp) = (truthy (getProp m f) \<and> (\<forall>t. getProp m f \<noteq> JStr t))"
  by (cases "getProp m f") (simp_all add: field_terms_def)

lemma buildSearchIndex_isl:
  "isl (buildSearchIndex pf m)
     = (isl (field_terms pf m ''TenSanPham'' True) \<or> isl (field_terms pf m ''MoTa'' True)
        \<or> isl (field_terms pf m ''Brand'' False) \<or> isl (field_terms pf m ''Group'' False))"
  by (cases "field_terms pf m ''TenSanPham'' True"; cases "field_terms pf m ''MoTa'' True";
      cases "field_terms pf m ''Brand'' False"; cases "field_terms pf m ''Group'' False")
     (simp_all add: buildSearchIndex_def)

lemma getProp_add: "getProp (a ++ b) f = getProp a f \<or> getProp (a ++ b) f = getProp b f"
  by (simp add: getProp_def map_add_def split: option.splits)

lemma field_terms_add:
  "\<not> isl (field_terms pf a f sp) \<Longrightarrow> \<not> isl (field_terms pf b f sp') \<Longrightarrow> \<not> isl (field_terms pf (a ++ b) f sp'')"
  using getProp_add [of a b f] by (auto simp: field_terms_isl)

lemma buildSearchIndex_add:
  "\<not> isl (buildSearchIndex pf a) \<Longrightarrow> \<not> isl (buildSearchIndex pf b) \<Longrightarrow> \<not> isl (buildSearchIndex pf (a ++ b))"
  unfolding buildSearchIndex_isl using field_terms_add by blast

lemma withSearchIndex_ok:
  "(sn = PRODUCTS \<longrightarrow> \<not> isl (buildSearchIndex pf m)) \<Longrightarrow>
     \<exists>upd. withSearchIndex pf sn (m(''timestamp'' \<mapsto> JNum now)) = Inr upd"
  by (cases "buildSearchIndex pf m") (auto simp: withSearchIndex_def)

lemma pull_item_succeeds:
  assumes keyed: "pull_keyed sn"
    and coh: "cache_coherent sn K s"
    and kin: "getKey sn item \<in> K"
    and valid: "valid_key (getKey sn item)"
    and build: "sn = PRODUCTS \<longrightarrow> \<not> isl (buildSearchIndex pf item)"
    and ex: "map_of (stores s sn) (getKey sn item) = Some old"
    and old: "sn = PRODUCTS \<longrightarrow> \<not> isl (buildSearchIndex pf old)"
  shows "fst (pull_item pf sn now item s) = Inr (getKey sn item)"
proof -
  let ?k = "getKey sn item"
  have kp: "getProp item (keyPath sn) = ?k" using getKey_keyPath [OF keyed] by simp
  obtain upd0 where w0: "withSearchIndex pf sn (item(''timestamp'' \<mapsto> JNum now)) = Inr upd0"
    using withSearchIndex_ok [OF build] by blast
  have add: "Store_add pf sn now item s = (Inl ConstraintError, s)"
    using Store_add_cases [OF keyed, of pf now item s, unfolded kp] w0 valid ex by simp
  then have res: "pull_item pf sn now item s = Store_update pf sn now ?k item s"
    by (simp add: pull_item_def)
  have c1: "memoryCache s (cacheKey sn ?k) = None \<or> memoryCache s (cacheKey sn ?k) = Some old"
  proof (cases "memoryCache s (cacheKey sn ?k)")
    case None
    then show ?thesis by simp
  next
    case (Some v)
    then have "map_of (stores s sn) ?k = Some v"
      using coh kin by (simp add: cache_coherent_def)
    then show ?thesis using Some ex by simp
  qed
  have "item (keyPath sn) = Some ?k" using valid_key_prop [of item "keyPath sn"] valid kp by simp
  then have key: "getProp (old ++ item) (keyPath sn) = ?k"
    by (simp add: getProp_def map_add_def)
  have "sn = PRODUCTS \<longrightarrow> \<not> isl (buildSearchIndex pf (old ++ item))"
    using build old buildSearchIndex_add by blast
  then obtain upd where w: "withSearchIndex pf sn ((old ++ item)(''timestamp'' \<mapsto> JNum now)) = Inr upd"
    using withSearchIndex_ok by blast
  show ?thesis using Store_update_cases [OF c1 ex valid key w] res by simp
qed

lemma pull_items_succeeds:
  assumes keyed: "pull_keyed sn" and inj: "inj_on js_toString K"
  shows "cache_coherent sn K s \<Longrightarrow> getKey sn ` set items \<subseteq> K \<Longrightarrow>
     (\<forall>item \<in> set items. valid_key (getKey sn item)
         \<and> (sn = PRODUCTS \<longrightarrow> \<not> isl (buildSearchIndex pf item))) \<Longrightarrow>
     (\<forall>k \<in> getKey sn ` set items. \<exists>r. map_of (stores s sn) k = Some r
         \<and> (sn = PRODUCTS \<longrightarrow> \<not> isl (buildSearchIndex pf r))) \<Longrightarrow>
     fst (pull_items pf sn now items s) = Inr ()"
proof (induction items arbitrary: s)
  case Nil
  then show ?case by simp
next
  case (Cons item items)
  let ?k0 = "getKey sn item"
  have kin: "?k0 \<in> K" using Cons.prems(2) by simp
  have sub: "getKey sn ` set items \<subseteq> K" using Cons.prems(2) by simp
  have valid: "valid_key ?k0" and build: "sn = PRODUCTS \<longrightarrow> \<not> isl (buildSearchIndex pf item)"
    using Cons.prems(3) by simp_all
  obtain old where ex: "map_of (stores s sn) ?k0 = Some old"
    and old: "sn = PRODUCTS \<longrightarrow> \<not> isl (buildSearchIndex pf old)"
    using Cons.prems(4) by auto
  have ok1: "fst (pull_item pf sn now item s) = Inr ?k0"
    using pull_item_succeeds [OF keyed Cons.prems(1) kin valid build ex old] .
  obtain s1 where p: "pull_item pf sn now item s = (Inr ?k0, s1)"
    using ok1 by (cases "pull_item pf sn now item s") auto
  note eff = pull_item_effect [OF keyed Cons.prems(1) inj kin ok1, unfolded p snd_conv]
  from eff obtain upd where
    upd: "stored_as pf sn now (eraseo sn (map_of (stores s sn) ?k0) ++ erase_derived sn item) upd"
    and st1: "stores s1 = (stores s)(sn := AList.update ?k0 upd (stores s sn))"
    and coh1: "cache_coherent sn K s1"
    by blast
  have updb: "sn = PRODUCTS \<longrightarrow> \<not> isl (buildSearchIndex pf upd)"
    using upd stored_as_build by blast
  have inv: "\<forall>k \<in> getKey sn ` set items. \<exists>r. map_of (stores s1 sn) k = Some r
         \<and> (sn = PRODUCTS \<longrightarrow> \<not> isl (buildSearchIndex pf r))"
  proof
    fix k assume k: "k \<in> getKey sn ` set items"
    show "\<exists>r. map_of (stores s1 sn) k = Some r \<and> (sn = PRODUCTS \<longrightarrow> \<not> isl (buildSearchIndex pf r))"
    proof (cases "k = ?k0")
      case True
      then show ?thesis using updb by (simp add: st1 update_conv')
    next
      case False
      have "k \<in> getKey sn ` set (item # items)" using k by auto
      then obtain r where "map_of (stores s sn) k = Some r"
        and "sn = PRODUCTS \<longrightarrow> \<not> isl (buildSearchIndex pf r)"
        using Cons.prems(4) by blast
      then show ?thesis using False by (simp add: st1 update_conv')
    qed
  qed
  have items_ok: "\<forall>item \<in> set items. valid_key (getKey sn item)
         \<and> (sn = PRODUCTS \<longrightarrow> \<not> isl (buildSearchIndex pf item))"
    using Cons.prems(3) by simp
  have "fst (pull_items pf sn now items s1) = Inr ()"
    using Cons.IH [OF coh1 sub items_ok inv] .
  then show ?case using p by simp
qed

lemma map_add_absorb: "(a ++ b) ++ b = a ++ (b :: 'a \<rightharpoonup> 'b)"
  by (rule ext) (simp add: map_add_def split: option.splits)

lemma cache_coherent_cong:
  "stores t = stores s \<Longrightarrow> memoryCache t = memoryCache s \<Longrightarrow>
     cache_coherent sn K t = cache_coherent sn K s"
  by (simp add: cache_coherent_def)

lemma pull_items_again:
  assumes keyed: "pull_keyed sn"
    and inj: "inj_on js_toString (getKey sn ` set items)"
    and coh: "cache_coherent sn (getKey sn ` set items) s0"
    and ok1: "fst (pull_items pf sn now1 items s0) = Inr ()"
    and st: "stores t = stores (snd (pull_items pf sn now1 items s0))"
    and mc: "memoryCache t = memoryCache (snd (pull_items pf sn now1 items s0))"
  shows "fst (pull_items pf sn now2 items t) = Inr ()
    \<and> map fst (stores (snd (pull_items pf sn now2 items t)) sn) = map fst (stores t sn)
    \<and> (\<forall>k. map_of (stores (snd (pull_items pf sn now2 items t)) sn) k
            = (if k \<in> getKey sn ` set items
               then map_option (\<lambda>r. r(''timestamp'' \<mapsto> JNum now2)) (map_of (stores t sn) k)
               else map_of (stores t sn) k))
    \<and> (\<forall>sn'. sn' \<noteq> sn \<longrightarrow> stores (snd (pull_items pf sn now2 items t)) sn' = stores t sn')"
proof -
  let ?K = "getKey sn ` set items"
  let ?s1 = "snd (pull_items pf sn now1 items s0)"
  let ?t2 = "snd (pull_items pf sn now2 items t)"
  note E1 = pull_items_effect [OF keyed inj coh subset_refl ok1]
  have rec1: "\<forall>k \<in> ?K. \<exists>r. map_of (stores t sn) k = Some r
      \<and> stored_as pf sn now1 (eraseo sn (map_of (stores s0 sn) k) ++ merged sn items k) r"
    using E1 st by simp
  have coh1: "cache_coherent sn ?K t"
    using E1 cache_coherent_cong [OF st mc] by blast
  have items_ok: "\<forall>item \<in> set items. valid_key (getKey sn item)
         \<and> (sn = PRODUCTS \<longrightarrow> \<not> isl (buildSearchIndex pf item))"
    using E1 by blast
  have present: "\<forall>k \<in> ?K. \<exists>r. map_of (stores t sn) k = Some r
         \<and> (sn = PRODUCTS \<longrightarrow> \<not> isl (buildSearchIndex pf r))"
  proof
    fix k assume "k \<in> ?K"
    then obtain r where r: "map_of (stores t sn) k = Some r"
      and sr: "stored_as pf sn now1 (eraseo sn (map_of (stores s0 sn) k) ++ merged sn items k) r"
      using rec1 by blast
    have "sn = PRODUCTS \<longrightarrow> \<not> isl (buildSearchIndex pf r)"
      using sr stored_as_build by blast
    with r show "\<exists>r. map_of (stores t sn) k = Some r \<and> (sn = PRODUCTS \<longrightarrow> \<not> isl (buildSearchIndex pf r))"
      by blast
  qed
  have ok2: "fst (pull_items pf sn now2 items t) = Inr ()"
    using pull_items_succeeds [OF keyed inj coh1 subset_refl items_ok present] .
  note E2 = pull_items_effect [OF keyed inj coh1 subset_refl ok2]
  have "?K \<subseteq> fst ` set (stores t sn)"
  proof
    fix k assume "k \<in> ?K"
    then obtain r where "map_of (stores t sn) k = Some r" using present by blast
    then show "k \<in> fst ` set (stores t sn)"
      by (metis map_of_eq_None_iff option.distinct(1))
  qed
  then have keys: "map fst (stores ?t2 sn) = map fst (stores t sn)"
    using E2 by blast
  have recs: "\<forall>k. map_of (stores ?t2 sn) k
            = (if k \<in> ?K
               then map_option (\<lambda>r. r(''timestamp'' \<mapsto> JNum now2)) (map_of (stores t sn) k)
               else map_of (stores t sn) k)"
  proof
    fix k
    show "map_of (stores ?t2 sn) k
            = (if k \<in> ?K
               then map_option (\<lambda>r. r(''timestamp'' \<mapsto> JNum now2)) (map_of (stores t sn) k)
               else map_of (stores t sn) k)"
    proof (cases "k \<in> ?K")
      case False
      then show ?thesis using E2 by simp
    next
      case True
      then obtain r1 where r1: "map_of (stores t sn) k = Some r1"
        and s1: "stored_as pf sn now1 (eraseo sn (map_of (stores s0 sn) k) ++ merged sn items k) r1"
        using rec1 by blast
      from True obtain r2 where r2: "map_of (stores ?t2 sn) k = Some r2"
        and s2: "stored_as pf sn now2 (eraseo sn (map_of (stores t sn) k) ++ merged sn items k) r2"
        using E2 by blast
      have "eraseo sn (map_of (stores t sn) k)
              = eraseo sn (map_of (stores s0 sn) k) ++ merged sn items k"
        using r1 stored_as_erase [OF s1] by (simp add: eraseo_def)
      then have "stored_as pf sn now2 (eraseo sn (map_of (stores s0 sn) k) ++ merged sn items k) r2"
        using s2 by (simp add: map_add_absorb)
      then have "r2 = r1(''timestamp'' \<mapsto> JNum now2)"
        using stored_as_retime [OF s1] by blast
      then show ?thesis using True r1 r2 by simp
    qed
  qed
  have others: "\<forall>sn'. sn' \<noteq> sn \<longrightarrow> stores ?t2 sn' = stores t sn'"
    using E2 by blast
  from ok2 keys recs others show ?thesis by (intro conjI)
qed

lemma pull_success_cases:
  assumes "pull pf sn now fetched s = (Inr d, s1)"
  shows "\<exists>st result. fetched = FetchResponse st (Some result) \<and> 200 \<le> st \<and> st \<le> 299
           \<and> success result \<and> data result = d
           \<and> ((\<exists>items s'. d = Items items \<and> pull_items pf sn now items s = (Inr (), s')
                            \<and> s1 = updateSyncMeta sn now s')
              \<or> (\<exists>x k s'. d = Single x \<and> Store_add pf sn now x s = (Inr k, s')
                            \<and> s1 = updateSyncMeta sn now s'))"
proof (cases fetched)
  case FetchRejected
  then show ?thesis using assms by (simp add: pull_def)
next
  case (FetchResponse st parsed)
  show ?thesis
  proof (cases parsed)
    case None
    then show ?thesis using assms FetchResponse by (simp add: pull_def split: if_splits)
  next
    case (Some result)
    have st: "200 \<le> st \<and> st \<le> 299" and suc: "success result"
      using assms FetchResponse Some by (auto simp: pull_def split: if_splits)
    show ?thesis
    proof (cases "data result")
      case (Items items)
      obtain r s' where p: "pull_items pf sn now items s = (r, s')"
        by (cases "pull_items pf sn now items s")
      then have "r = Inr () \<and> d = Items items \<and> s1 = updateSyncMeta sn now s'"
        using assms FetchResponse Some st suc Items by (cases r) (auto simp: pull_def)
      then show ?thesis using FetchResponse Some st suc Items p by auto
    next
      case (Single x)
      obtain r s' where p: "Store_add pf sn now x s = (r, s')"
        by (cases "Store_add pf sn now x s")
      then have "(\<exists>k. r = Inr k) \<and> d = Single x \<and> s1 = updateSyncMeta sn now s'"
        using assms FetchResponse Some st suc Single by (cases r) (auto simp: pull_def)
      then show ?thesis using FetchResponse Some st suc Single p by auto
    qed
  qed
qed

lemma retime_erase:
  "map_option (\<lambda>r. r(''timestamp'' := None)) (map_option (\<lambda>r. r(''timestamp'' \<mapsto> v)) x)
     = map_option (\<lambda>r. r(''timestamp'' := None)) x"
  by (cases x) simp_all

text \<open>
  Claim C9, as the code has it. In the products, categories and orders collections, let
  the in-memory cache hold, under the keys of an array snapshot, no record that differs
  from the stored one, and let no two different keys of the snapshot print alike. After
  a successful pull, a second pull of the same response succeeds when the snapshot is an
  array, leaves the keys of the collection as they are, leaves every property of every
  record as it is apart from the timestamp, sets the timestamp of the records of the
  snapshot to the second clock reading, and changes no other collection.
\<close>

theorem pull_twice_refreshes_timestamps_only:
  assumes keyed: "sn = PRODUCTS \<or> sn = CATEGORIES \<or> sn = ORDERS"
    and coh: "\<forall>items. d = Items items \<longrightarrow> cache_coherent sn (getKey sn ` set items) s"
    and inj: "\<forall>items. d = Items items \<longrightarrow> inj_on js_toString (getKey sn ` set items)"
    and first: "pull pf sn now1 fetched s = (Inr d, s1)"
  shows "(\<forall>items. d = Items items \<longrightarrow> fst (pull pf sn now2 fetched s1) = Inr d)
    \<and> map fst (stores (snd (pull pf sn now2 fetched s1)) sn) = map fst (stores s1 sn)
    \<and> (\<forall>k. map_option (\<lambda>r. r(''timestamp'' := None))
               (map_of (stores (snd (pull pf sn now2 fetched s1)) sn) k)
            = map_option (\<lambda>r. r(''timestamp'' := None)) (map_of (stores s1 sn) k))
    \<and> (\<forall>items k. d = Items items \<and> k \<in> getKey sn ` set items \<longrightarrow>
          map_of (stores (snd (pull pf sn now2 fetched s1)) sn) k
            = map_option (\<lambda>r. r(''timestamp'' \<mapsto> JNum now2)) (map_of (stores s1 sn) k))
    \<and> (\<forall>sn'. sn' \<noteq> sn \<longrightarrow> stores (snd (pull pf sn now2 fetched s1)) sn' = stores s1 sn')"
proof -
  have pk: "pull_keyed sn" using keyed by (simp add: pull_keyed_def)
  obtain st result where f: "fetched = FetchResponse st (Some result)"
    and stok: "200 \<le> st \<and> st \<le> 299" and suc: "success result" and dat: "data result = d"
    and cases: "(\<exists>items s'. d = Items items \<and> pull_items pf sn now1 items s = (Inr (), s')
                            \<and> s1 = updateSyncMeta sn now1 s')
              \<or> (\<exists>x k s'. d = Single x \<and> Store_add pf sn now1 x s = (Inr k, s')
                            \<and> s1 = updateSyncMeta sn now1 s')"
    using pull_success_cases [OF first] by blast
  from cases show ?thesis
  proof
    assume "\<exists>items s'. d = Items items \<and> pull_items pf sn now1 items s = (Inr (), s')
                            \<and> s1 = updateSyncMeta sn now1 s'"
    then obtain items s' where d: "d = Items items"
      and p1: "pull_items pf sn now1 items s = (Inr (), s')"
      and s1: "s1 = updateSyncMeta sn now1 s'"
      by blast
    have inj': "inj_on js_toString (getKey sn ` set items)" using inj d by simp
    have coh': "cache_coherent sn (getKey sn ` set items) s" using coh d by simp
    have ok1: "fst (pull_items pf sn now1 items s) = Inr ()" using p1 by simp
    have st1: "stores s1 = stores (snd (pull_items pf sn now1 items s))"
      and mc1: "memoryCache s1 = memoryCache (snd (pull_items pf sn now1 items s))"
      using p1 s1 by (simp_all add: updateSyncMeta_def)
    note again = pull_items_again [OF pk inj' coh' ok1 st1 mc1, of now2]
    obtain t2 where p2: "pull_items pf sn now2 items s1 = (Inr (), t2)"
      using again by (cases "pull_items pf sn now2 items s1") auto
    have res: "pull pf sn now2 fetched s1 = (Inr d, updateSyncMeta sn now2 t2)"
      using f stok suc dat d p2 by (simp add: pull_def)
    have st2: "stores (snd (pull pf sn now2 fetched s1)) = stores t2"
      using res by (simp add: updateSyncMeta_def)
    have t2: "t2 = snd (pull_items pf sn now2 items s1)" using p2 by simp
    have a: "\<forall>items. d = Items items \<longrightarrow> fst (pull pf sn now2 fetched s1) = Inr d"
      using res by simp
    have b: "map fst (stores (snd (pull pf sn now2 fetched s1)) sn) = map fst (stores s1 sn)"
      using again st2 t2 by simp
    have recs: "\<forall>k. map_of (stores (snd (pull pf sn now2 fetched s1)) sn) k
            = (if k \<in> getKey sn ` set items
               then map_option (\<lambda>r. r(''timestamp'' \<mapsto> JNum now2)) (map_of (stores s1 sn) k)
               else map_of (stores s1 sn) k)"
      using again st2 t2 by simp
    have c: "\<forall>k. map_option (\<lambda>r. r(''timestamp'' := None))
               (map_of (stores (snd (pull pf sn now2 fetched s1)) sn) k)
            = map_option (\<lambda>r. r(''timestamp'' := None)) (map_of (stores s1 sn) k)"
      using recs by (simp add: retime_erase)
    have e: "\<forall>items k. d = Items items \<and> k \<in> getKey sn ` set items \<longrightarrow>
          map_of (stores (snd (pull pf sn now2 fetched s1)) sn) k
            = map_option (\<lambda>r. r(''timestamp'' \<mapsto> JNum now2)) (map_of (stores s1 sn) k)"
      using recs d by simp
    have g: "\<forall>sn'. sn' \<noteq> sn \<longrightarrow> stores (snd (pull pf sn now2 fetched s1)) sn' = stores s1 sn'"
      using again st2 t2 by simp
    from a b c e g show ?thesis by (intro conjI)
  next
    assume "\<exists>x k s'. d = Single x \<and> Store_add pf sn now1 x s = (Inr k, s')
                            \<and> s1 = updateSyncMeta sn now1 s'"
    then obtain x k s' where d: "d = Single x"
      and a1: "Store_add pf sn now1 x s = (Inr k, s')"
      and s1: "s1 = updateSyncMeta sn now1 s'"
      by blast
    let ?k = "getProp x (keyPath sn)"
    note ac1 = Store_add_cases [OF pk, of pf now1 x s]
    obtain upd where w1: "withSearchIndex pf sn (x(''timestamp'' \<mapsto> JNum now1)) = Inr upd"
      using a1 ac1 by (cases "withSearchIndex pf sn (x(''timestamp'' \<mapsto> JNum now1))") auto
    have valid: "valid_key ?k" using a1 ac1 w1 by (auto split: if_splits)
    have "stores s' = (stores s)(sn := AList.update ?k upd (stores s sn))"
      using a1 ac1 w1 by (auto split: if_splits)
    then have present: "map_of (stores s1 sn) ?k \<noteq> None"
      using s1 by (simp add: updateSyncMeta_def update_conv')
    have "sn = PRODUCTS \<longrightarrow> \<not> isl (buildSearchIndex pf x)"
      using w1 by (auto simp: withSearchIndex_def split: sum.splits)
    then obtain upd2 where w2: "withSearchIndex pf sn (x(''timestamp'' \<mapsto> JNum now2)) = Inr upd2"
      using withSearchIndex_ok by blast
    have "Store_add pf sn now2 x s1 = (Inl ConstraintError, s1)"
      using Store_add_cases [OF pk, of pf now2 x s1] w2 valid present by simp
    then have res: "pull pf sn now2 fetched s1 = (Inl ConstraintError, s1)"
      using f stok suc dat d by (simp add: pull_def)
    then show ?thesis using d by simp
  qed
qed

lemma pull_returns_data:
  "\<not> isl (fst (pull pf sn now (FetchResponse st (Some result)) s)) \<Longrightarrow>
     fst (pull pf sn now (FetchResponse st (Some result)) s) = Inr (data result)"
  by (auto simp: pull_def split: if_splits snapshot.splits prod.splits sum.splits)

text \<open>
  Claim C9 as stated fails: pulling the same one-product snapshot at the clock readings
  1000 and 2000 succeeds twice, and the second pull alters the record: its timestamp
  goes from 1000 to 2000.
\<close>

theorem pull_twice_changes_timestamp:
  "\<not> isl (fst (pull ascii_platform PRODUCTS 1000
       (FetchResponse 200 (Some \<lparr>success = True,
          data = Items [[''ProductID'' \<mapsto> JStr ''p1'', ''TenSanPham'' \<mapsto> JStr ''Cup'']]\<rparr>))
       empty_db))
   \<and> map (\<lambda>e. (fst e, getProp (snd e) ''TenSanPham'', getProp (snd e) ''timestamp''))
       (stores (snd (pull ascii_platform PRODUCTS 1000
          (FetchResponse 200 (Some \<lparr>success = True,
             data = Items [[''ProductID'' \<mapsto> JStr ''p1'', ''TenSanPham'' \<mapsto> JStr ''Cup'']]\<rparr>))
          empty_db)) PRODUCTS)
     = [(JStr ''p1'', JStr ''Cup'', JNum 1000)]
   \<and> \<not> isl (fst (pull ascii_platform PRODUCTS 2000
       (FetchResponse 200 (Some \<lparr>success = True,
          data = Items [[''ProductID'' \<mapsto> JStr ''p1'', ''TenSanPham'' \<mapsto> JStr ''Cup'']]\<rparr>))
       (snd (pull ascii_platform PRODUCTS 1000
          (FetchResponse 200 (Some \<lparr>success = True,
             data = Items [[''ProductID'' \<mapsto> JStr ''p1'', ''TenSanPham'' \<mapsto> JStr ''Cup'']]\<rparr>))
          empty_db))))
   \<and> map (\<lambda>e. (fst e, getProp (snd e) ''TenSanPham'', getProp (snd e) ''timestamp''))
       (stores (snd (pull ascii_platform PRODUCTS 2000
          (FetchResponse 200 (Some \<lparr>success = True,
             data = Items [[''ProductID'' \<mapsto> JStr ''p1'', ''TenSanPham'' \<mapsto> JStr ''Cup'']]\<rparr>))
          (snd (pull ascii_platform PRODUCTS 1000
             (FetchResponse 200 (Some \<lparr>success = True,
                data = Items [[''ProductID'' \<mapsto> JStr ''p1'', ''TenSanPham'' \<mapsto> JStr ''Cup'']]\<rparr>))
             empty_db)))) PRODUCTS)
     = [(JStr ''p1'', JStr ''Cup'', JNum 2000)]"
  by code_simp

text \<open>
  The theorem of claim C9 on the database as \<open>add\<close> and then \<open>get\<close> of the product
  \<open>p1\<close> leave it, with the record in the in-memory cache, and a snapshot of the two
  products \<open>p1\<close> and \<open>p2\<close>.
\<close>

theorem pull_twice_refreshes_timestamps_only_witness:
  "fst (pull ascii_platform PRODUCTS 2000
       (FetchResponse 200 (Some \<lparr>success = True,
          data = Items [[''ProductID'' \<mapsto> JStr ''p1'', ''TenSanPham'' \<mapsto> JStr ''Cup''],
                        [''ProductID'' \<mapsto> JStr ''p2'', ''TenSanPham'' \<mapsto> JStr ''Vase'']]\<rparr>))
       (snd (pull ascii_platform PRODUCTS 1000
          (FetchResponse 200 (Some \<lparr>success = True,
             data = Items [[''ProductID'' \<mapsto> JStr ''p1'', ''TenSanPham'' \<mapsto> JStr ''Cup''],
                           [''ProductID'' \<mapsto> JStr ''p2'', ''TenSanPham'' \<mapsto> JStr ''Vase'']]\<rparr>))
          (snd (Store_get PRODUCTS (JStr ''p1'')
             (snd (Store_add ascii_platform PRODUCTS 500
                [''ProductID'' \<mapsto> JStr ''p1'', ''TenSanPham'' \<mapsto> JStr ''Mug''] empty_db)))))))
     = Inr (Items [[''ProductID'' \<mapsto> JStr ''p1'', ''TenSanPham'' \<mapsto> JStr ''Cup''],
                   [''ProductID'' \<mapsto> JStr ''p2'', ''TenSanPham'' \<mapsto> JStr ''Vase'']])
   \<and> map (\<lambda>e. (fst e, getProp (snd e) ''TenSanPham'', getProp (snd e) ''timestamp''))
       (stores (snd (pull ascii_platform PRODUCTS 1000
          (FetchResponse 200 (Some \<lparr>success = True,
             data = Items [[''ProductID'' \<mapsto> JStr ''p1'', ''TenSanPham'' \<mapsto> JStr ''Cup''],
                           [''ProductID'' \<mapsto> JStr ''p2'', ''TenSanPham'' \<mapsto> JStr ''Vase'']]\<rparr>))
          (snd (Store_get PRODUCTS (JStr ''p1'')
             (snd (Store_add ascii_platform PRODUCTS 500
                [''ProductID'' \<mapsto> JStr ''p1'', ''TenSanPham'' \<mapsto> JStr ''Mug''] empty_db)))))) PRODUCTS)
     = [(JStr ''p1'', JStr ''Cup'', JNum 1000), (JStr ''p2'', JStr ''Vase'', JNum 1000)]
   \<and> map (\<lambda>e. (fst e, getProp (snd e) ''TenSanPham'', getProp (snd e) ''timestamp''))
       (stores (snd (pull ascii_platform PRODUCTS 2000
       (FetchResponse 200 (Some \<lparr>success = True,
          data = Items [[''ProductID'' \<mapsto> JStr ''p1'', ''TenSanPham'' \<mapsto> JStr ''Cup''],
                        [''ProductID'' \<mapsto> JStr ''p2'', ''TenSanPham'' \<mapsto> JStr ''Vase'']]\<rparr>))
       (snd (pull ascii_platform PRODUCTS 1000
          (FetchResponse 200 (Some \<lparr>success = True,
             data = Items [[''ProductID'' \<mapsto> JStr ''p1'', ''TenSanPham'' \<mapsto> JStr ''Cup''],
                           [''ProductID'' \<mapsto> JStr ''p2'', ''TenSanPham'' \<mapsto> JStr ''Vase'']]\<rparr>))
          (snd (Store_get PRODUCTS (JStr ''p1'')
             (snd (Store_add ascii_platform PRODUCTS 500
                [''ProductID'' \<mapsto> JStr ''p1'', ''TenSanPham'' \<mapsto> JStr ''Mug''] empty_db)))))))) PRODUCTS)
     = [(JStr ''p1'', JStr ''Cup'', JNum 2000), (JStr ''p2'', JStr ''Vase'', JNum 2000)]"
proof -
  let ?A = "[''ProductID'' \<mapsto> JStr ''p1'', ''TenSanPham'' \<mapsto> JStr ''Cup'']"
  let ?B = "[''ProductID'' \<mapsto> JStr ''p2'', ''TenSanPham'' \<mapsto> JStr ''Vase'']"
  let ?R = "[''ProductID'' \<mapsto> JStr ''p1'', ''TenSanPham'' \<mapsto> JStr ''Mug'',
             ''timestamp'' \<mapsto> JNum 500, ''searchIndex'' \<mapsto> JArr [''mug'']]"
  let ?s0 = "snd (Store_get PRODUCTS (JStr ''p1'')
               (snd (Store_add ascii_platform PRODUCTS 500
                  [''ProductID'' \<mapsto> JStr ''p1'', ''TenSanPham'' \<mapsto> JStr ''Mug''] empty_db)))"
  let ?res = "\<lparr>success = True, data = Items [?A, ?B]\<rparr>"
  let ?F = "FetchResponse 200 (Some ?res)"
  let ?s1 = "snd (pull ascii_platform PRODUCTS 1000 ?F ?s0)"
  let ?s2 = "snd (pull ascii_platform PRODUCTS 2000 ?F ?s1)"
  have s0: "?s0 = \<lparr>stores = (\<lambda>sn. [])(PRODUCTS := [(JStr ''p1'', ?R)]),
                    memoryCache = [''products:p1'' \<mapsto> ?R],
                    syncMeta = Map.empty, nextId = 1\<rparr>"
    by (simp add: Store_get_def Store_add_def withSearchIndex_def buildSearchIndex_def
        field_terms_def idb_add_def idb_get_def inline_key_def empty_db_def ascii_platform_def
        getProp_def cacheKey_def ascii_toLowerCase_def ascii_lower_char_def uniq_def)
  have "\<not> isl (fst (pull ascii_platform PRODUCTS 1000 ?F ?s0))" by code_simp
  then have "fst (pull ascii_platform PRODUCTS 1000 ?F ?s0) = Inr (data ?res)"
    by (rule pull_returns_data)
  then have first: "pull ascii_platform PRODUCTS 1000 ?F ?s0 = (Inr (Items [?A, ?B]), ?s1)"
    by (metis prod.collapse api_result.select_convs(2))
  have keyed: "PRODUCTS = PRODUCTS \<or> PRODUCTS = CATEGORIES \<or> PRODUCTS = ORDERS" by simp
  have coh: "\<forall>items. Items [?A, ?B] = Items items
               \<longrightarrow> cache_coherent PRODUCTS (getKey PRODUCTS ` set items) ?s0"
    unfolding s0 by (auto simp: cache_coherent_def cacheKey_def getKey_def getProp_def)
  have inj: "\<forall>items. Items [?A, ?B] = Items items \<longrightarrow> inj_on js_toString (getKey PRODUCTS ` set items)"
    by (auto simp: getKey_def getProp_def)
  note inst = pull_twice_refreshes_timestamps_only [OF keyed coh inj first, of 2000]
  have a: "fst (pull ascii_platform PRODUCTS 2000 ?F ?s1) = Inr (Items [?A, ?B])"
    using inst by blast
  have b: "map (\<lambda>e. (fst e, getProp (snd e) ''TenSanPham'', getProp (snd e) ''timestamp''))
             (stores ?s1 PRODUCTS)
             = [(JStr ''p1'', JStr ''Cup'', JNum 1000), (JStr ''p2'', JStr ''Vase'', JNum 1000)]"
    by code_simp
  have c: "map (\<lambda>e. (fst e, getProp (snd e) ''TenSanPham'', getProp (snd e) ''timestamp''))
             (stores ?s2 PRODUCTS)
             = [(JStr ''p1'', JStr ''Cup'', JNum 2000), (JStr ''p2'', JStr ''Vase'', JNum 2000)]"
    by code_simp
  from a b c show ?thesis by simp
qed

end
